theory Spec2Isabelle
  imports Main "HOL-Library.Sublist"
begin

section \<open>The worker pool of pgmoneta (src/libpgmoneta/workers.c)\<close>

text \<open>
  The C structures are records; a pointer is an address (\<open>nat\<close>) or \<open>None\<close> for
  NULL; the task structures live in an explicit heap, since the queue links them through
  their \<open>previous\<close> pointers. Every function returns \<open>error + result\<close>: \<open>Inl\<close> is a
  point where the C program has no defined behaviour (a NULL or dangling pointer is
  dereferenced, a signed counter overflows, a copy leaves its buffer) or where a thread
  cannot go on (a blocking wait). Mutexes are not data of the model: a region between
  lock and unlock is one atomic transition. The calls of \<open>pgmoneta_log_error\<close> write to
  the process log, which is outside this file's scope.
\<close>

type_synonym addr = nat

datatype error =
    NullDereference
  | DanglingPointer
  | SignedOverflow
  | BufferOverrun
  | WouldBlock
  | BadAllocation
  | NoSuchThread

definition INT_MAX :: int where
  "INT_MAX = 2147483647"

definition INT_MIN :: int where
  "INT_MIN = - 2147483648"

subsection \<open>struct task, struct semaphore, struct queue\<close>

text \<open>
  \<open>task_function\<close> is the field \<open>function\<close> and \<open>sem_value\<close> the field \<open>value\<close> of the
  source (both names are reserved words here). A function pointer is a number. The
  fields \<open>cond_signals\<close> and \<open>cond_broadcasts\<close> count the calls of
  \<open>pthread_cond_signal\<close> and \<open>pthread_cond_broadcast\<close> on the semaphore's condition
  variable since \<open>pthread_cond_init\<close>: they make a post observable even when the value
  was 1 already.
\<close>

record task =
  task_function :: nat
  wc :: "addr option"
  previous :: "addr option"

type_synonym heap = "addr \<rightharpoonup> task"

record semaphore =
  sem_value :: int
  cond_signals :: nat
  cond_broadcasts :: nat

record queue =
  number_of_tasks :: int
  front :: "addr option"
  rear :: "addr option"
  has_tasks :: "semaphore option"

subsection \<open>The semaphore\<close>

text \<open>
  \<open>semaphore_init\<close> (lines 464-482): returns 1 and leaves the semaphore alone when
  the value is not 0 or 1 or the pointer is NULL.
\<close>

definition semaphore_init :: "semaphore option \<Rightarrow> int \<Rightarrow> int \<times> semaphore option" where
  "semaphore_init sp v =
     (if v < 0 \<or> v > 1 \<or> sp = None then (1, sp)
      else (0, Some \<lparr>sem_value = v, cond_signals = 0, cond_broadcasts = 0\<rparr>))"

text \<open>
  \<open>semaphore_reset\<close> (lines 484-490) destroys the mutex and the condition variable
  through the pointer before it calls \<open>semaphore_init\<close>, so NULL is dereferenced.
\<close>

definition semaphore_reset :: "semaphore option \<Rightarrow> error + semaphore option" where
  "semaphore_reset sp =
     (case sp of
        None \<Rightarrow> Inl NullDereference
      | Some s \<Rightarrow> Inr (snd (semaphore_init (Some s) 0)))"

definition semaphore_post :: "semaphore option \<Rightarrow> error + semaphore" where
  "semaphore_post sp =
     (case sp of
        None \<Rightarrow> Inl NullDereference
      | Some s \<Rightarrow> Inr (s\<lparr>sem_value := 1, cond_signals := cond_signals s + 1\<rparr>))"

definition semaphore_post_all :: "semaphore option \<Rightarrow> error + semaphore" where
  "semaphore_post_all sp =
     (case sp of
        None \<Rightarrow> Inl NullDereference
      | Some s \<Rightarrow> Inr (s\<lparr>sem_value := 1, cond_broadcasts := cond_broadcasts s + 1\<rparr>))"

text \<open>
  \<open>semaphore_wait\<close> (lines 510-520) sleeps on the condition variable while the value
  is not 1: the caller can take this transition only when the value is 1.
\<close>

definition semaphore_wait :: "semaphore option \<Rightarrow> error + semaphore" where
  "semaphore_wait sp =
     (case sp of
        None \<Rightarrow> Inl NullDereference
      | Some s \<Rightarrow> if sem_value s \<noteq> 1 then Inl WouldBlock else Inr (s\<lparr>sem_value := 0\<rparr>))"

subsection \<open>The queue\<close>

text \<open>
  \<open>queue_init\<close> (lines 362-386). The second argument is what \<open>malloc\<close> returned for
  the semaphore: \<open>None\<close> when it failed, otherwise the block with whatever it held.
\<close>

definition queue_init :: "queue \<Rightarrow> semaphore option \<Rightarrow> int \<times> queue" where
  "queue_init q m =
     (let q1 = q\<lparr>number_of_tasks := 0, front := None, rear := None, has_tasks := m\<rparr>
      in if m = None then (1, q1)
         else (case semaphore_init m 0 of
                 (rc, s) \<Rightarrow> if rc \<noteq> 0 then (1, q1\<lparr>has_tasks := s\<rparr>)
                            else (0, q1\<lparr>has_tasks := s\<rparr>)))"

text \<open>
  The end of \<open>queue_push\<close> (lines 422-424): the counter goes up by one (no defined
  behaviour when the result is not an \<open>int\<close> of C) and the semaphore is posted.
\<close>

definition push_finish :: "queue \<Rightarrow> heap \<Rightarrow> error + (queue \<times> heap)" where
  "push_finish q h =
     (if INT_MAX < number_of_tasks q + 1 then Inl SignedOverflow
      else (case semaphore_post (has_tasks q) of
              Inl e \<Rightarrow> Inl e
            | Inr s \<Rightarrow> Inr (q\<lparr>number_of_tasks := number_of_tasks q + 1,
                               has_tasks := Some s\<rparr>, h)))"

text \<open>\<open>queue_push\<close> (lines 403-426).\<close>

definition queue_push :: "queue \<Rightarrow> addr option \<Rightarrow> heap \<Rightarrow> error + (queue \<times> heap)" where
  "queue_push q tp h =
     (case tp of
        None \<Rightarrow> Inl NullDereference
      | Some t \<Rightarrow>
          (case h t of
             None \<Rightarrow> Inl DanglingPointer
           | Some tk \<Rightarrow>
               (let h1 = h(t \<mapsto> tk\<lparr>previous := None\<rparr>)
                in if number_of_tasks q = 0
                   then push_finish (q\<lparr>front := Some t, rear := Some t\<rparr>) h1
                   else (case rear q of
                           None \<Rightarrow> Inl NullDereference
                         | Some r \<Rightarrow>
                             (case h1 r of
                                None \<Rightarrow> Inl DanglingPointer
                              | Some rk \<Rightarrow>
                                  push_finish (q\<lparr>rear := Some t\<rparr>)
                                    (h1(r \<mapsto> rk\<lparr>previous := Some t\<rparr>)))))))"

text \<open>
  \<open>queue_pull\<close> (lines 428-455) returns the pointer it read from \<open>front\<close> and the
  updated queue; the heap is only read.
\<close>

definition queue_pull :: "queue \<Rightarrow> heap \<Rightarrow> error + (addr option \<times> queue)" where
  "queue_pull q h =
     (let tp = front q
      in if number_of_tasks q = 0 then Inr (tp, q)
         else if number_of_tasks q = 1
              then Inr (tp, q\<lparr>front := None, rear := None, number_of_tasks := 0\<rparr>)
         else (case tp of
                 None \<Rightarrow> Inl NullDereference
               | Some t \<Rightarrow>
                   (case h t of
                      None \<Rightarrow> Inl DanglingPointer
                    | Some tk \<Rightarrow>
                        if number_of_tasks q - 1 < INT_MIN then Inl SignedOverflow
                        else (case semaphore_post (has_tasks q) of
                                Inl e \<Rightarrow> Inl e
                              | Inr s \<Rightarrow>
                                  Inr (tp, q\<lparr>front := previous tk,
                                             number_of_tasks := number_of_tasks q - 1,
                                             has_tasks := Some s\<rparr>)))))"

text \<open>\<open>free\<close> of a task pointer: nothing for NULL, no defined behaviour on a pointer
  that is not allocated.\<close>

definition free_task :: "addr option \<Rightarrow> heap \<Rightarrow> error + heap" where
  "free_task tp h =
     (case tp of
        None \<Rightarrow> Inr h
      | Some t \<Rightarrow> if h t = None then Inl DanglingPointer else Inr (h(t := None)))"

text \<open>
  \<open>queue_clear\<close> (lines 388-401): the loop pulls and frees while the counter is not
  zero. It always ends: a positive counter falls to zero, a negative one falls until
  the decrement overflows.
\<close>

function queue_clear_loop :: "queue \<Rightarrow> heap \<Rightarrow> error + (queue \<times> heap)" where
  "queue_clear_loop q h =
     (if number_of_tasks q = 0 then Inr (q, h)
      else (case queue_pull q h of
              Inl e \<Rightarrow> Inl e
            | Inr (tp, q') \<Rightarrow>
                (case free_task tp h of
                   Inl e \<Rightarrow> Inl e
                 | Inr h' \<Rightarrow> queue_clear_loop q' h')))"
  by pat_completeness auto
termination
  apply (relation "measure (\<lambda>(q, h). if 0 \<le> number_of_tasks q then nat (number_of_tasks q)
                                     else nat (number_of_tasks q - INT_MIN) + 1)")
   apply simp
  subgoal for q h x2 tp q' h'
    by (auto simp: queue_pull_def Let_def INT_MIN_def
        split: if_splits option.splits sum.splits)
  done

definition queue_clear :: "queue \<Rightarrow> heap \<Rightarrow> error + (queue \<times> heap)" where
  "queue_clear q h =
     (case queue_clear_loop q h of
        Inl e \<Rightarrow> Inl e
      | Inr (q1, h1) \<Rightarrow>
          (case semaphore_reset (has_tasks q1) of
             Inl e \<Rightarrow> Inl e
           | Inr s \<Rightarrow> Inr (q1\<lparr>front := None, rear := None, has_tasks := s,
                              number_of_tasks := 0\<rparr>, h1)))"

text \<open>
  \<open>queue_destroy\<close> (lines 457-462). After \<open>free\<close> the field \<open>has_tasks\<close> points to no
  semaphore any more, which is \<open>None\<close> here; both callers free the structure that holds
  the queue right afterwards.
\<close>

definition queue_destroy :: "queue \<Rightarrow> heap \<Rightarrow> error + (queue \<times> heap)" where
  "queue_destroy q h =
     (case queue_clear q h of
        Inl e \<Rightarrow> Inl e
      | Inr (q1, h1) \<Rightarrow> Inr (q1\<lparr>has_tasks := None\<rparr>, h1))"

subsection \<open>The queue's invariant\<close>

text \<open>
  \<open>linked h p n\<close>: following the \<open>previous\<close> pointers from \<open>p\<close> passes exactly \<open>n\<close>
  allocated tasks and then reaches NULL. \<open>chain h p as\<close> names these tasks.
  \<open>queue_invariant\<close> is the invariant in the words of the data model: the counter is
  zero exactly when head and tail are both empty, and the counter is the number of
  linked tasks reachable from the head.
\<close>

fun linked :: "heap \<Rightarrow> addr option \<Rightarrow> nat \<Rightarrow> bool" where
  "linked h p 0 = (p = None)"
| "linked h p (Suc n) =
     (case p of
        None \<Rightarrow> False
      | Some a \<Rightarrow> (case h a of None \<Rightarrow> False | Some tk \<Rightarrow> linked h (previous tk) n))"

fun chain :: "heap \<Rightarrow> addr option \<Rightarrow> addr list \<Rightarrow> bool" where
  "chain h p [] = (p = None)"
| "chain h p (a # as) =
     (p = Some a \<and> (case h a of None \<Rightarrow> False | Some tk \<Rightarrow> chain h (previous tk) as))"

definition queue_invariant :: "queue \<Rightarrow> heap \<Rightarrow> bool" where
  "queue_invariant q h =
     ((number_of_tasks q = 0 \<longleftrightarrow> front q = None \<and> rear q = None) \<and>
      0 \<le> number_of_tasks q \<and> linked h (front q) (nat (number_of_tasks q)))"

text \<open>
  A post happened between two values of \<open>has_tasks\<close>: the later one is what
  \<open>semaphore_post\<close> makes of the earlier one.
\<close>

definition posted :: "semaphore option \<Rightarrow> semaphore option \<Rightarrow> bool" where
  "posted sp sp' = (case sp' of None \<Rightarrow> False | Some s' \<Rightarrow> semaphore_post sp = Inr s')"

subsection \<open>The queue in use\<close>

text \<open>
  How the file uses a queue. \<open>Push f c (a, blk)\<close> is the body of
  \<open>pgmoneta_workers_add\<close> (lines 132-142): \<open>malloc\<close> returned the block \<open>blk\<close> at the
  address \<open>a\<close>, which was not allocated; the function and its argument are stored and
  the task is pushed. \<open>Pull\<close> is the worker's \<open>queue_pull\<close> followed by its reads of
  \<open>t->function\<close> and \<open>t->wc\<close> (lines 330-334); the worker holds the task until it frees
  it, \<open>Free\<close> (line 336). \<open>Clear\<close> is \<open>queue_clear\<close>. A step answers with the task
  a \<open>Pull\<close> obtained: its address, function and argument.
\<close>

record qsys =
  the_queue :: queue
  the_heap :: heap
  held :: "addr list"

datatype qop = Push nat "addr option" "addr \<times> task" | Pull | Free addr | Clear

type_synonym pulled = "addr \<times> nat \<times> addr option"

fun queue_step :: "qop \<Rightarrow> qsys \<Rightarrow> error + (pulled option \<times> qsys)" where
  "queue_step (Push f c (a, blk)) s =
     (if the_heap s a \<noteq> None then Inl BadAllocation
      else (case queue_push (the_queue s) (Some a)
                   ((the_heap s)(a \<mapsto> blk\<lparr>task_function := f, wc := c\<rparr>)) of
              Inl e \<Rightarrow> Inl e
            | Inr (q', h') \<Rightarrow> Inr (None, s\<lparr>the_queue := q', the_heap := h'\<rparr>)))"
| "queue_step Pull s =
     (case queue_pull (the_queue s) (the_heap s) of
        Inl e \<Rightarrow> Inl e
      | Inr (tp, q') \<Rightarrow>
          (case tp of
             None \<Rightarrow> Inr (None, s\<lparr>the_queue := q'\<rparr>)
           | Some t \<Rightarrow>
               (case the_heap s t of
                  None \<Rightarrow> Inl DanglingPointer
                | Some tk \<Rightarrow>
                    Inr (Some (t, task_function tk, wc tk),
                         s\<lparr>the_queue := q', held := t # held s\<rparr>))))"
| "queue_step (Free a) s =
     (if a \<notin> set (held s) then Inl DanglingPointer
      else (case free_task (Some a) (the_heap s) of
              Inl e \<Rightarrow> Inl e
            | Inr h' \<Rightarrow> Inr (None, s\<lparr>the_heap := h', held := removeAll a (held s)\<rparr>)))"
| "queue_step Clear s =
     (case queue_clear (the_queue s) (the_heap s) of
        Inl e \<Rightarrow> Inl e
      | Inr (q', h') \<Rightarrow> Inr (None, s\<lparr>the_queue := q', the_heap := h'\<rparr>))"

fun queue_run :: "qop list \<Rightarrow> qsys \<Rightarrow> error + (pulled list \<times> qsys)" where
  "queue_run [] s = Inr ([], s)"
| "queue_run (x # xs) s =
     (case queue_step x s of
        Inl e \<Rightarrow> Inl e
      | Inr (out, s1) \<Rightarrow>
          (case queue_run xs s1 of
             Inl e \<Rightarrow> Inl e
           | Inr (outs, s2) \<Rightarrow>
               Inr ((case out of None \<Rightarrow> outs | Some y \<Rightarrow> y # outs), s2)))"

fun pushes :: "qop list \<Rightarrow> pulled list" where
  "pushes [] = []"
| "pushes (Push f c (a, blk) # xs) = (a, f, c) # pushes xs"
| "pushes (x # xs) = pushes xs"

text \<open>A queue right after \<open>queue_init\<close> succeeded, beside a heap \<open>h\<close>; no task is held.\<close>

definition queue_start :: "queue \<Rightarrow> semaphore \<Rightarrow> heap \<Rightarrow> qsys" where
  "queue_start q m h = \<lparr>the_queue = snd (queue_init q (Some m)), the_heap = h, held = []\<rparr>"

text \<open>
  The invariant the proofs carry: \<open>as\<close> is the list of the queued tasks from the head
  on, the tail is the last of them, no task is queued twice, the semaphore exists, and
  the tasks that workers hold are allocated and not queued. \<open>entry h a\<close> is what a worker
  reads from the task at \<open>a\<close>.
\<close>

definition entry :: "heap \<Rightarrow> addr \<Rightarrow> pulled" where
  "entry h a = (case h a of None \<Rightarrow> (a, 0, None) | Some tk \<Rightarrow> (a, task_function tk, wc tk))"

definition q_inv :: "queue \<Rightarrow> heap \<Rightarrow> addr list \<Rightarrow> bool" where
  "q_inv q h as =
     (chain h (front q) as \<and> number_of_tasks q = int (length as) \<and>
      rear q = (if as = [] then None else Some (last as)) \<and> distinct as \<and>
      has_tasks q \<noteq> None)"

definition qsys_inv :: "qsys \<Rightarrow> addr list \<Rightarrow> bool" where
  "qsys_inv s as =
     (q_inv (the_queue s) (the_heap s) as \<and> distinct (held s) \<and>
      set as \<inter> set (held s) = {} \<and> (\<forall>a \<in> set (held s). the_heap s a \<noteq> None))"

subsection \<open>struct workers, struct worker and the process\<close>

text \<open>
  \<open>worker\<close> is the array of pointers to the worker structures. \<open>idle_signals\<close> counts
  the calls of \<open>pthread_cond_signal\<close> on \<open>worker_all_idle\<close>. A worker structure stands
  for the thread \<open>pthread\<close> started on it as well: \<open>pc\<close> is the place in \<open>worker_do\<close>
  where the thread is, \<open>local_t\<close> its local variable \<open>t\<close>. The process has the one
  variable \<open>worker_keepalive\<close> of the file (line 41) and the allocated tasks, pools and
  worker structures.
\<close>

record workers =
  number_of_alive :: int
  number_of_working :: int
  outcome :: bool
  queue :: queue
  worker :: "addr option list"
  idle_signals :: nat

datatype pc =
    Starting | Testing | Waiting | Woken | Counting | Pulling | Running | Finishing
  | Leaving | Finished

record worker =
  workers :: addr
  pc :: pc
  local_t :: "addr option"

record process =
  worker_keepalive :: int
  task_heap :: heap
  pools :: "addr \<rightharpoonup> workers"
  threads :: "addr \<rightharpoonup> worker"

definition set_thread :: "addr \<Rightarrow> worker \<Rightarrow> process \<Rightarrow> process" where
  "set_thread a wk s = s\<lparr>threads := (threads s)(a \<mapsto> wk)\<rparr>"

definition set_pool :: "addr \<Rightarrow> workers \<Rightarrow> process \<Rightarrow> process" where
  "set_pool p w s = s\<lparr>pools := (pools s)(p \<mapsto> w)\<rparr>"

definition in_pool :: "process \<Rightarrow> addr \<Rightarrow> (workers \<Rightarrow> error + 'a) \<Rightarrow> error + 'a" where
  "in_pool s p f = (case pools s p of None \<Rightarrow> Inl DanglingPointer | Some w \<Rightarrow> f w)"

text \<open>
  \<open>worker_do\<close> (lines 309-354), one transition of the thread of the worker structure
  at \<open>a\<close>:
  \<^item> \<open>Starting\<close>: lines 316-318, \<open>number_of_alive\<close> goes up;
  \<^item> \<open>Testing\<close>: the loop test of line 320;
  \<^item> \<open>Waiting\<close>: \<open>semaphore_wait\<close>, line 322;
  \<^item> \<open>Woken\<close>: the second test, line 324;
  \<^item> \<open>Counting\<close>: lines 326-328, \<open>number_of_working\<close> goes up;
  \<^item> \<open>Pulling\<close>: \<open>queue_pull\<close>, line 330;
  \<^item> \<open>Running\<close>: lines 331-337, the task's function runs (its own effects are not
    part of this file) and the task is freed;
  \<^item> \<open>Finishing\<close>: lines 339-345, \<open>number_of_working\<close> goes down and the idle
    condition is signalled when it is zero;
  \<^item> \<open>Leaving\<close>: lines 349-351, \<open>number_of_alive\<close> goes down and the thread ends.

  The two counters of the pool move with the threads of the pool; unlike the queue's
  counter, which grows with every submission, they are not checked for overflow here.
\<close>

definition worker_do :: "addr \<Rightarrow> process \<Rightarrow> error + process" where
  "worker_do a s =
     (case threads s a of
        None \<Rightarrow> Inl NoSuchThread
      | Some wk \<Rightarrow>
          (case pc wk of
             Starting \<Rightarrow>
               in_pool s (workers wk) (\<lambda>w.
                 Inr (set_thread a (wk\<lparr>pc := Testing\<rparr>)
                       (set_pool (workers wk) (w\<lparr>number_of_alive := number_of_alive w + 1\<rparr>) s)))
           | Testing \<Rightarrow>
               Inr (set_thread a
                     (wk\<lparr>pc := (if worker_keepalive s \<noteq> 0 then Waiting else Leaving)\<rparr>) s)
           | Waiting \<Rightarrow>
               in_pool s (workers wk) (\<lambda>w.
                 case semaphore_wait (has_tasks (queue w)) of
                   Inl e \<Rightarrow> Inl e
                 | Inr sm \<Rightarrow>
                     Inr (set_thread a (wk\<lparr>pc := Woken\<rparr>)
                           (set_pool (workers wk)
                              (w\<lparr>queue := (queue w)\<lparr>has_tasks := Some sm\<rparr>\<rparr>) s)))
           | Woken \<Rightarrow>
               Inr (set_thread a
                     (wk\<lparr>pc := (if worker_keepalive s \<noteq> 0 then Counting else Testing)\<rparr>) s)
           | Counting \<Rightarrow>
               in_pool s (workers wk) (\<lambda>w.
                 Inr (set_thread a (wk\<lparr>pc := Pulling\<rparr>)
                       (set_pool (workers wk)
                          (w\<lparr>number_of_working := number_of_working w + 1\<rparr>) s)))
           | Pulling \<Rightarrow>
               in_pool s (workers wk) (\<lambda>w.
                 case queue_pull (queue w) (task_heap s) of
                   Inl e \<Rightarrow> Inl e
                 | Inr (tp, q') \<Rightarrow>
                     Inr (set_thread a (wk\<lparr>pc := Running, local_t := tp\<rparr>)
                           (set_pool (workers wk) (w\<lparr>queue := q'\<rparr>) s)))
           | Running \<Rightarrow>
               (case local_t wk of
                  None \<Rightarrow> Inr (set_thread a (wk\<lparr>pc := Finishing\<rparr>) s)
                | Some t \<Rightarrow>
                    (case task_heap s t of
                       None \<Rightarrow> Inl DanglingPointer
                     | Some tk \<Rightarrow>
                         Inr (set_thread a (wk\<lparr>pc := Finishing\<rparr>)
                               (s\<lparr>task_heap := (task_heap s)(t := None)\<rparr>))))
           | Finishing \<Rightarrow>
               in_pool s (workers wk) (\<lambda>w.
                 let w1 = w\<lparr>number_of_working := number_of_working w - 1\<rparr>;
                     w2 = (if number_of_working w1 = 0
                           then w1\<lparr>idle_signals := idle_signals w1 + 1\<rparr> else w1)
                 in Inr (set_thread a (wk\<lparr>pc := Testing\<rparr>) (set_pool (workers wk) w2 s)))
           | Leaving \<Rightarrow>
               in_pool s (workers wk) (\<lambda>w.
                 Inr (set_thread a (wk\<lparr>pc := Finished\<rparr>)
                       (set_pool (workers wk) (w\<lparr>number_of_alive := number_of_alive w - 1\<rparr>) s)))
           | Finished \<Rightarrow> Inl NoSuchThread))"

text \<open>
  \<open>pgmoneta_workers_add\<close> (lines 125-150). \<open>m\<close> is what \<open>malloc\<close> returns for the
  task, asked only when the pool pointer is not NULL: \<open>None\<close>, or the address and the
  contents of the block. The result is the return value and the process afterwards.
\<close>

definition pgmoneta_workers_add ::
  "addr option \<Rightarrow> nat \<Rightarrow> addr option \<Rightarrow> (addr \<times> task) option \<Rightarrow> process \<Rightarrow>
   error + (int \<times> process)" where
  "pgmoneta_workers_add wp f c m s =
     (case wp of
        None \<Rightarrow> Inr (1, s)
      | Some p \<Rightarrow>
          (case m of
             None \<Rightarrow> Inr (1, s)
           | Some (t, blk) \<Rightarrow>
               (case pools s p of
                  None \<Rightarrow> Inl DanglingPointer
                | Some w \<Rightarrow>
                    (case queue_push (queue w) (Some t)
                            ((task_heap s)(t \<mapsto> blk\<lparr>task_function := f, wc := c\<rparr>)) of
                       Inl e \<Rightarrow> Inl e
                     | Inr (q', h') \<Rightarrow>
                         Inr (0, set_pool p (w\<lparr>queue := q'\<rparr>) (s\<lparr>task_heap := h'\<rparr>))))))"

text \<open>
  \<open>worker_init\<close> (lines 281-307): the return value, the pointer stored in the array
  slot, and the process with the new thread at the start of \<open>worker_do\<close>.
\<close>

definition worker_init :: "addr \<Rightarrow> addr option \<Rightarrow> process \<Rightarrow> int \<times> addr option \<times> process" where
  "worker_init p m s =
     (case m of
        None \<Rightarrow> (1, None, s)
      | Some a \<Rightarrow> (0, Some a, set_thread a \<lparr>workers = p, pc = Starting, local_t = None\<rparr> s))"

text \<open>The loop of lines 100-103 over the results of its calls of \<open>malloc\<close>; the return
  value of \<open>worker_init\<close> is ignored there.\<close>

fun worker_init_all :: "addr \<Rightarrow> addr option list \<Rightarrow> process \<Rightarrow> addr option list \<times> process" where
  "worker_init_all p [] s = ([], s)"
| "worker_init_all p (m # ms) s =
     (case worker_init p m s of
        (rc, slot, s1) \<Rightarrow>
          (case worker_init_all p ms s1 of (slots, s2) \<Rightarrow> (slot # slots, s2)))"

text \<open>
  The label \<open>error\<close> of \<open>pgmoneta_workers_initialize\<close> when the pool structure exists
  (lines 116-122): the queue is destroyed, the structure freed, nothing is returned.
\<close>

definition initialize_error :: "queue \<Rightarrow> process \<Rightarrow> error + (addr option \<times> process)" where
  "initialize_error q s =
     (case queue_destroy q (task_heap s) of
        Inl e \<Rightarrow> Inl e
      | Inr (q', h') \<Rightarrow> Inr (None, s\<lparr>task_heap := h'\<rparr>))"

text \<open>
  \<open>pgmoneta_workers_initialize\<close> up to its waiting loop (lines 59-103, 114-122). The
  calls of \<open>malloc\<close> answer with \<open>mw\<close> (the pool: address and contents of the block),
  \<open>ms\<close> (the semaphore), \<open>ma\<close> (whether the array was allocated) and \<open>mk n\<close> (the
  \<open>n\<close>-th worker structure). The result is \<open>None\<close> when the function returns 1 with the
  output pointer NULL, and the pool's address when it goes on to wait.
\<close>

definition workers_initialize_setup ::
  "int \<Rightarrow> (addr \<times> workers) option \<Rightarrow> semaphore option \<Rightarrow> bool \<Rightarrow> (nat \<Rightarrow> addr option) \<Rightarrow>
   process \<Rightarrow> error + (addr option \<times> process)" where
  "workers_initialize_setup num mw ms ma mk s =
     (let s0 = s\<lparr>worker_keepalive := 1\<rparr>
      in if num < 1 then Inr (None, s0)
         else (case mw of
                 None \<Rightarrow> Inr (None, s0)
               | Some (p, blk) \<Rightarrow>
                   (let w0 = blk\<lparr>number_of_alive := 0, number_of_working := 0,
                                  outcome := True\<rparr>
                    in case queue_init (queue w0) ms of
                         (rc, q) \<Rightarrow>
                           if rc \<noteq> 0 then initialize_error q s0
                           else if \<not> ma then initialize_error q s0
                           else (case worker_init_all p (map mk [0..<nat num]) s0 of
                                   (slots, s1) \<Rightarrow>
                                     Inr (Some p,
                                          set_pool p (w0\<lparr>queue := q, worker := slots,
                                                         idle_signals := 0\<rparr>) s1)))))"

subsection \<open>The parts of pgmoneta_workers_destroy\<close>

text \<open>
  Lines 179-180: the number of live workers is kept in \<open>worker_total\<close> and the
  variable \<open>worker_keepalive\<close> is set to 0. The result is \<open>worker_total\<close> and the
  process afterwards.
\<close>

definition workers_destroy_begin :: "addr \<Rightarrow> process \<Rightarrow> error + (int \<times> process)" where
  "workers_destroy_begin p s =
     in_pool s p (\<lambda>w. Inr (number_of_alive w, s\<lparr>worker_keepalive := 0\<rparr>))"

text \<open>The body of both loops (lines 185 and 192): the semaphore is posted to all.\<close>

definition workers_destroy_post :: "addr \<Rightarrow> process \<Rightarrow> error + process" where
  "workers_destroy_post p s =
     in_pool s p (\<lambda>w.
       case semaphore_post_all (has_tasks (queue w)) of
         Inl e \<Rightarrow> Inl e
       | Inr sm \<Rightarrow> Inr (set_pool p (w\<lparr>queue := (queue w)\<lparr>has_tasks := Some sm\<rparr>\<rparr>) s))"

text \<open>\<open>worker_destroy\<close> (lines 356-360) on each pointer of a part of the array.\<close>

fun worker_destroy_all :: "addr option list \<Rightarrow> (addr \<rightharpoonup> worker) \<Rightarrow> error + (addr \<rightharpoonup> worker)" where
  "worker_destroy_all [] th = Inr th"
| "worker_destroy_all (None # ws) th = worker_destroy_all ws th"
| "worker_destroy_all (Some a # ws) th =
     (if th a = None then Inl DanglingPointer else worker_destroy_all ws (th(a := None)))"

text \<open>
  Lines 196-204, after the loops have seen no live worker: the queue is destroyed, the
  first \<open>worker_total\<close> worker structures, the array and the pool are freed.
\<close>

definition workers_destroy_end :: "addr \<Rightarrow> int \<Rightarrow> process \<Rightarrow> error + process" where
  "workers_destroy_end p worker_total s =
     in_pool s p (\<lambda>w.
       case queue_destroy (queue w) (task_heap s) of
         Inl e \<Rightarrow> Inl e
       | Inr (q', h') \<Rightarrow>
           if int (length (worker w)) < worker_total then Inl BufferOverrun
           else (case worker_destroy_all (take (nat worker_total) (worker w)) (threads s) of
                   Inl e \<Rightarrow> Inl e
                 | Inr th \<Rightarrow>
                     Inr (s\<lparr>task_heap := h', threads := th, pools := (pools s)(p := None)\<rparr>)))"

subsection \<open>Interleaving\<close>

text \<open>
  The transitions of the process: a worker thread takes its next one (\<open>Step\<close>), some
  thread submits a task (\<open>Add\<close>), begins to initialise a pool (\<open>Setup\<close>), or is in
  \<open>pgmoneta_workers_destroy\<close> (\<open>Shutdown\<close>, \<open>Post\<close>, and \<open>Teardown\<close> once no worker
  of the pool is alive). The threads that \<open>Setup\<close> creates stand at the start of
  \<open>worker_do\<close>; their first transition only adds to \<open>number_of_alive\<close>, which the
  initialising thread reads in its waiting loop and not before. \<open>malloc\<close> never returns
  an address that is allocated: an action that says otherwise is \<open>BadAllocation\<close>.
\<close>

datatype action =
    Step addr
  | Add "addr option" nat "addr option" "(addr \<times> task) option"
  | Setup int "(addr \<times> workers) option" "semaphore option" bool "addr option list"
  | Shutdown addr
  | Post addr
  | Teardown addr int

fun somes :: "'a option list \<Rightarrow> 'a list" where
  "somes [] = []"
| "somes (None # xs) = somes xs"
| "somes (Some x # xs) = x # somes xs"

fun fire :: "action \<Rightarrow> process \<Rightarrow> error + process" where
  "fire (Step a) s = worker_do a s"
| "fire (Add wp f c m) s =
     (if (case m of None \<Rightarrow> False | Some (t, blk) \<Rightarrow> task_heap s t \<noteq> None)
      then Inl BadAllocation
      else map_sum id snd (pgmoneta_workers_add wp f c m s))"
| "fire (Setup num mw ms ma mks) s =
     (if (case mw of None \<Rightarrow> False | Some (p, blk) \<Rightarrow> pools s p \<noteq> None) \<or>
         \<not> distinct (somes mks) \<or> (\<exists>a \<in> set (somes mks). threads s a \<noteq> None) \<or>
         length mks \<noteq> nat num
      then Inl BadAllocation
      else map_sum id snd (workers_initialize_setup num mw ms ma (\<lambda>n. mks ! n) s))"
| "fire (Shutdown p) s = map_sum id snd (workers_destroy_begin p s)"
| "fire (Post p) s = workers_destroy_post p s"
| "fire (Teardown p n) s =
     in_pool s p (\<lambda>w. if number_of_alive w \<noteq> 0 then Inl WouldBlock
                       else workers_destroy_end p n s)"

fun run :: "action list \<Rightarrow> process \<Rightarrow> error + process" where
  "run [] s = Inr s"
| "run (x # xs) s = (case fire x s of Inl e \<Rightarrow> Inl e | Inr s1 \<Rightarrow> run xs s1)"

text \<open>
  The process before any call, and the states it can reach.
\<close>

definition boot :: process where
  "boot = \<lparr>worker_keepalive = 0, task_heap = Map.empty, pools = Map.empty,
           threads = Map.empty\<rparr>"

inductive reachable :: "process \<Rightarrow> bool" where
  reachable_boot: "reachable boot"
| reachable_fire: "reachable s \<Longrightarrow> fire x s = Inr s' \<Longrightarrow> reachable s'"

text \<open>
  The loop of lines 105-108. Each poll that finds another number of live workers
  sleeps, and the next batch of the schedule happens meanwhile; when the schedule is
  used up the caller is still waiting.
\<close>

fun workers_initialize_wait ::
  "addr \<Rightarrow> int \<Rightarrow> action list list \<Rightarrow> process \<Rightarrow> error + process" where
  "workers_initialize_wait p num [] s =
     in_pool s p (\<lambda>w. if number_of_alive w \<noteq> num then Inl WouldBlock else Inr s)"
| "workers_initialize_wait p num (b # bs) s =
     in_pool s p (\<lambda>w.
       if number_of_alive w \<noteq> num
       then (case run b s of Inl e \<Rightarrow> Inl e | Inr s1 \<Rightarrow> workers_initialize_wait p num bs s1)
       else Inr s)"

text \<open>
  \<open>pgmoneta_workers_initialize\<close> (lines 59-123): the return value, the pointer it
  stores through its second argument, and the process afterwards.
\<close>

definition pgmoneta_workers_initialize ::
  "int \<Rightarrow> (addr \<times> workers) option \<Rightarrow> semaphore option \<Rightarrow> bool \<Rightarrow> (nat \<Rightarrow> addr option) \<Rightarrow>
   action list list \<Rightarrow> process \<Rightarrow> error + (int \<times> addr option \<times> process)" where
  "pgmoneta_workers_initialize num mw ms ma mk sched s =
     (case workers_initialize_setup num mw ms ma mk s of
        Inl e \<Rightarrow> Inl e
      | Inr (None, s1) \<Rightarrow> Inr (1, None, s1)
      | Inr (Some p, s1) \<Rightarrow>
          (case workers_initialize_wait p num sched s1 of
             Inl e \<Rightarrow> Inl e
           | Inr s2 \<Rightarrow> Inr (0, Some p, s2)))"

text \<open>
  \<open>pgmoneta_workers_wait\<close> (lines 152-166): while a task is queued or a worker is
  working the caller sleeps on the idle condition, and other threads run; it tests both
  counters again whenever it wakes.
\<close>

fun workers_wait_loop :: "addr \<Rightarrow> action list list \<Rightarrow> process \<Rightarrow> error + process" where
  "workers_wait_loop p [] s =
     in_pool s p (\<lambda>w.
       if number_of_tasks (queue w) \<noteq> 0 \<or> number_of_working w \<noteq> 0 then Inl WouldBlock
       else Inr s)"
| "workers_wait_loop p (b # bs) s =
     in_pool s p (\<lambda>w.
       if number_of_tasks (queue w) \<noteq> 0 \<or> number_of_working w \<noteq> 0
       then (case run b s of Inl e \<Rightarrow> Inl e | Inr s1 \<Rightarrow> workers_wait_loop p bs s1)
       else Inr s)"

definition pgmoneta_workers_wait ::
  "addr option \<Rightarrow> action list list \<Rightarrow> process \<Rightarrow> error + process" where
  "pgmoneta_workers_wait wp sched s =
     (case wp of None \<Rightarrow> Inr s | Some p \<Rightarrow> workers_wait_loop p sched s)"

text \<open>
  The two loops of \<open>pgmoneta_workers_destroy\<close> (lines 182-194) differ in their timing
  only: while a worker is alive the semaphore is posted to all, and other threads run.
\<close>

fun workers_destroy_wait :: "addr \<Rightarrow> action list list \<Rightarrow> process \<Rightarrow> error + process" where
  "workers_destroy_wait p [] s =
     in_pool s p (\<lambda>w. if number_of_alive w \<noteq> 0 then Inl WouldBlock else Inr s)"
| "workers_destroy_wait p (b # bs) s =
     in_pool s p (\<lambda>w.
       if number_of_alive w \<noteq> 0
       then (case workers_destroy_post p s of
               Inl e \<Rightarrow> Inl e
             | Inr s0 \<Rightarrow>
                 (case run b s0 of
                    Inl e \<Rightarrow> Inl e
                  | Inr s1 \<Rightarrow> workers_destroy_wait p bs s1))
       else Inr s)"

text \<open>\<open>pgmoneta_workers_destroy\<close> (lines 168-206).\<close>

definition pgmoneta_workers_destroy ::
  "addr option \<Rightarrow> action list list \<Rightarrow> process \<Rightarrow> error + process" where
  "pgmoneta_workers_destroy wp sched s =
     (case wp of
        None \<Rightarrow> Inr s
      | Some p \<Rightarrow>
          (case workers_destroy_begin p s of
             Inl e \<Rightarrow> Inl e
           | Inr (worker_total, s0) \<Rightarrow>
               (case workers_destroy_wait p sched s0 of
                  Inl e \<Rightarrow> Inl e
                | Inr s1 \<Rightarrow> workers_destroy_end p worker_total s1)))"

subsection \<open>The number of workers\<close>

text \<open>
  \<open>pgmoneta_get_number_of_workers\<close> (lines 208-232). The configuration in shared
  memory is an argument: \<open>servers\<close> is the array \<open>common.servers\<close>, \<open>server_workers\<close>
  the field \<open>workers\<close> of a server and \<open>config_workers\<close> the field \<open>workers\<close> of the
  configuration. \<open>have_linux\<close> says whether \<open>HAVE_LINUX\<close> is defined and \<open>nprocs\<close> is
  what \<open>get_nprocs\<close> answers.
\<close>

record server =
  server_workers :: int

record main_configuration =
  servers :: "server list"
  config_workers :: int

text \<open>
  Modelled from the spec: the macro \<open>MIN\<close> of pgmoneta.h, which is not among the
  sources here. The spec says that the count is clamped to an upper bound, so
  \<open>MIN_macro a b\<close> is the smaller of its arguments (\<open>MIN\<close> is a reserved word here).
\<close>

definition MIN_macro :: "int \<Rightarrow> int \<Rightarrow> int" where
  "MIN_macro a b = (if a < b then a else b)"

definition pgmoneta_get_number_of_workers ::
  "bool \<Rightarrow> int \<Rightarrow> main_configuration \<Rightarrow> int \<Rightarrow> error + int" where
  "pgmoneta_get_number_of_workers have_linux nprocs config server =
     (if server < 0 \<or> int (length (servers config)) \<le> server then Inl BufferOverrun
      else (let sw = server_workers (servers config ! nat server);
                nw = (if sw \<noteq> - 1 then sw else config_workers config)
            in Inr (if have_linux then MIN_macro nw nprocs else MIN_macro nw 16)))"

subsection \<open>The payload of a file operation\<close>

text \<open>
  \<open>struct worker_input\<close>: three character arrays of the same capacity (\<open>MAX_PATH\<close> of
  pgmoneta.h, an argument \<open>cap\<close> here), the level and four pointers. \<open>wi_workers\<close> is
  \<open>common.workers\<close>; the other fields have the prefix \<open>wi_\<close> before their names. An
  array field is the list of its \<open>cap\<close> bytes.
\<close>

record worker_input =
  wi_workers :: "addr option"
  wi_directory :: string
  wi_from :: string
  wi_to :: string
  wi_level :: int
  wi_data :: "addr option"
  wi_failed :: "addr option"
  wi_all :: "addr option"

text \<open>
  One array after \<open>memset\<close> and the guarded \<open>memcpy\<close> (lines 249-254): the text is
  copied with its length \<open>strlen\<close>, whatever the capacity; past the capacity the copy
  leaves the array.
\<close>

definition copy_text :: "nat \<Rightarrow> string option \<Rightarrow> error + string" where
  "copy_text cap src =
     (case src of
        None \<Rightarrow> Inr (replicate cap (CHR 0x00))
      | Some str \<Rightarrow>
          if length str > 0
          then (if cap < length str then Inl BufferOverrun
                else Inr (str @ replicate (cap - length str) (CHR 0x00)))
          else Inr (replicate cap (CHR 0x00)))"

text \<open>
  \<open>pgmoneta_create_worker_input\<close> (lines 234-279): \<open>m\<close> says whether \<open>malloc\<close>
  succeeded; the result is the return value and the structure behind the output
  pointer (\<open>None\<close> for NULL).
\<close>

definition pgmoneta_create_worker_input ::
  "nat \<Rightarrow> string option \<Rightarrow> string option \<Rightarrow> string option \<Rightarrow> int \<Rightarrow> addr option \<Rightarrow> bool \<Rightarrow>
   error + (int \<times> worker_input option)" where
  "pgmoneta_create_worker_input cap directory from_text to_text level wp m =
     (if \<not> m then Inr (1, None)
      else (case copy_text cap directory of
              Inl e \<Rightarrow> Inl e
            | Inr d \<Rightarrow>
                (case copy_text cap from_text of
                   Inl e \<Rightarrow> Inl e
                 | Inr f \<Rightarrow>
                     (case copy_text cap to_text of
                        Inl e \<Rightarrow> Inl e
                      | Inr t \<Rightarrow>
                          Inr (0, Some \<lparr>wi_workers = wp, wi_directory = d, wi_from = f,
                                        wi_to = t, wi_level = level, wi_data = None,
                                        wi_failed = None, wi_all = None\<rparr>)))))"

subsection \<open>Example data\<close>

text \<open>A block as \<open>malloc\<close> may return it for a task, a heap of two linked tasks and
  queues over it, and a queue structure and a semaphore block before \<open>queue_init\<close>.\<close>

definition task_block :: task where
  "task_block = \<lparr>task_function = 0, wc = None, previous = Some 77\<rparr>"

definition two_tasks :: heap where
  "two_tasks = [1 \<mapsto> \<lparr>task_function = 10, wc = None, previous = Some 2\<rparr>,
                2 \<mapsto> \<lparr>task_function = 20, wc = Some 5, previous = None\<rparr>]"

definition queue_of_two :: queue where
  "queue_of_two = \<lparr>number_of_tasks = 2, front = Some 1, rear = Some 2,
     has_tasks = Some \<lparr>sem_value = 0, cond_signals = 0, cond_broadcasts = 0\<rparr>\<rparr>"

definition queue_of_one :: queue where
  "queue_of_one = \<lparr>number_of_tasks = 1, front = Some 2, rear = Some 2,
     has_tasks = Some \<lparr>sem_value = 1, cond_signals = 1, cond_broadcasts = 0\<rparr>\<rparr>"

definition queue_of_none :: queue where
  "queue_of_none = \<lparr>number_of_tasks = 0, front = None, rear = None,
     has_tasks = Some \<lparr>sem_value = 1, cond_signals = 1, cond_broadcasts = 0\<rparr>\<rparr>"

definition raw_queue :: queue where
  "raw_queue = \<lparr>number_of_tasks = 7, front = Some 9, rear = None, has_tasks = None\<rparr>"

definition raw_semaphore :: semaphore where
  "raw_semaphore = \<lparr>sem_value = 5, cond_signals = 3, cond_broadcasts = 2\<rparr>"

definition busy_day :: "qop list" where
  "busy_day =
     [Push 10 (Some 100) (1, task_block), Push 20 None (2, task_block), Pull,
      Push 30 (Some 300) (3, task_block), Pull, Free 1, Push 40 None (1, task_block),
      Pull, Pull, Pull]"

definition last_day :: "qop list" where
  "last_day =
     [Push 10 (Some 100) (1, task_block), Push 20 None (2, task_block), Pull,
      Push 30 (Some 300) (3, task_block), Clear, Pull, Free 1]"

definition raw_pool :: workers where
  "raw_pool = \<lparr>number_of_alive = 9, number_of_working = 9, outcome = False, queue = raw_queue,
     worker = [], idle_signals = 4\<rparr>"

text \<open>
  A pool of one worker at 50, after \<open>pgmoneta_workers_initialize\<close> has seen its worker
  alive; two submissions to it; the worker's way to the end of its first task; and a
  second pool at 51 beside the first.
\<close>

definition one_worker :: "action list" where
  "one_worker = [Setup 1 (Some (50, raw_pool)) (Some raw_semaphore) True [Some 60], Step 60]"

definition two_submits :: "action list" where
  "two_submits = [Add (Some 50) 10 (Some 100) (Some (1, task_block)),
                  Add (Some 50) 20 None (Some (2, task_block))]"

definition first_task :: "action list" where
  "first_task = one_worker @ two_submits @ [Step 60, Step 60, Step 60, Step 60, Step 60, Step 60]"

definition two_pools :: "action list" where
  "two_pools = one_worker @
     [Setup 1 (Some (51, raw_pool)) (Some raw_semaphore) True [Some 61], Step 61]"

definition little_config :: main_configuration where
  "little_config = \<lparr>servers = [\<lparr>server_workers = 3\<rparr>, \<lparr>server_workers = - 1\<rparr>,
                                 \<lparr>server_workers = 64\<rparr>],
                     config_workers = 6\<rparr>"

text \<open>The actions of worker threads and of submitting threads: they leave
  \<open>worker_keepalive\<close> alone.\<close>

fun quiet :: "action \<Rightarrow> bool" where
  "quiet (Step a) = True"
| "quiet (Add wp f c m) = True"
| "quiet x = False"


section \<open>Properties of the queue\<close>

subsection \<open>Linked tasks\<close>

lemma linked_chain: "linked h p n \<longleftrightarrow> (\<exists>as. chain h p as \<and> length as = n)"
proof (induction n arbitrary: p)
  case 0
  then show ?case by auto
next
  case (Suc n)
  show ?case
  proof
    assume "linked h p (Suc n)"
    then obtain a tk where a: "p = Some a" "h a = Some tk" "linked h (previous tk) n"
      by (auto split: option.splits)
    with Suc obtain as where "chain h (previous tk) as" "length as = n" by blast
    with a have "chain h p (a # as) \<and> length (a # as) = Suc n" by simp
    then show "\<exists>as. chain h p as \<and> length as = Suc n" by blast
  next
    assume "\<exists>as. chain h p as \<and> length as = Suc n"
    then obtain as where as: "chain h p as" "length as = Suc n" by blast
    then obtain a bs where "as = a # bs" by (cases as) auto
    with as Suc show "linked h p (Suc n)" by (auto split: option.splits)
  qed
qed

lemma chain_dom: "chain h p as \<Longrightarrow> a \<in> set as \<Longrightarrow> h a \<noteq> None"
  by (induction as arbitrary: p) (auto split: option.splits)

lemma chain_update_other: "a \<notin> set as \<Longrightarrow> chain (h(a := v)) p as = chain h p as"
  by (induction as arbitrary: p) (auto split: option.splits)

lemma chain_snoc:
  "chain h p as \<Longrightarrow> distinct as \<Longrightarrow> as \<noteq> [] \<Longrightarrow> h (last as) = Some rk \<Longrightarrow> a \<notin> set as \<Longrightarrow>
   h a = Some tk \<Longrightarrow> previous tk = None \<Longrightarrow>
   chain (h(last as \<mapsto> rk\<lparr>previous := Some a\<rparr>)) p (as @ [a])"
proof (induction as arbitrary: p)
  case Nil
  then show ?case by simp
next
  case (Cons x xs)
  then obtain tx where tx: "p = Some x" "h x = Some tx" "chain h (previous tx) xs"
    by (auto split: option.splits)
  show ?case
  proof (cases "xs = []")
    case True
    with Cons.prems tx show ?thesis by auto
  next
    case False
    with Cons.prems have l: "last (x # xs) = last xs" "last xs \<noteq> x" by auto
    from Cons.prems have d: "distinct xs" "a \<notin> set xs" "a \<noteq> x" by auto
    from Cons.prems l have hl: "h (last xs) = Some rk" by simp
    let ?h' = "h(last xs \<mapsto> rk\<lparr>previous := Some a\<rparr>)"
    have c: "chain ?h' (previous tx) (xs @ [a])"
      by (rule Cons.IH [OF tx(3) d(1) False hl d(2) Cons.prems(6) Cons.prems(7)])
    have hx: "?h' x = Some tx" using l tx by simp
    have "chain ?h' (Some x) (x # (xs @ [a]))" using c hx by (simp del: fun_upd_apply)
    with tx l show ?thesis by (simp del: fun_upd_apply)
  qed
qed

lemma q_inv_invariant: "q_inv q h as \<Longrightarrow> queue_invariant q h"
proof -
  assume a: "q_inv q h as"
  then have c: "chain h (front q) as" and n: "number_of_tasks q = int (length as)"
    by (auto simp: q_inv_def)
  from c have "linked h (front q) (length as)" by (auto simp: linked_chain)
  moreover from c have "front q = None \<longleftrightarrow> as = []" by (cases as) auto
  ultimately show ?thesis using a n by (auto simp: queue_invariant_def q_inv_def)
qed

lemma q_inv_init: "q_inv (snd (queue_init q (Some m))) h []"
  by (simp add: queue_init_def semaphore_init_def q_inv_def Let_def)

lemma q_inv_push:
  assumes "q_inv q h as" "h a = Some tk" "a \<notin> set as" "queue_push q (Some a) h = Inr (q', h')"
  shows "q_inv q' h' (as @ [a]) \<and> (\<forall>b. entry h' b = entry h b) \<and> (\<forall>b. h' b = None \<longleftrightarrow> h b = None)"
proof (cases "as = []")
  case True
  with assms show ?thesis
    by (auto simp: q_inv_def queue_push_def push_finish_def semaphore_post_def entry_def
        split: if_splits option.splits)
next
  case False
  from False assms have "last as \<noteq> a" using last_in_set [of as] by auto
  with False assms obtain r rk where r: "rear q = Some r" "r = last as" "h r = Some rk" "r \<noteq> a"
    using chain_dom [of h "front q" as "last as"] by (auto simp: q_inv_def)
  let ?h1 = "h(a \<mapsto> tk\<lparr>previous := None\<rparr>)"
  have c1: "chain ?h1 (front q) as" using assms by (simp add: chain_update_other q_inv_def)
  have "chain (?h1(last as \<mapsto> rk\<lparr>previous := Some a\<rparr>)) (front q) (as @ [a])"
    using chain_snoc [OF c1, of rk a "tk\<lparr>previous := None\<rparr>"] assms False r
    by (auto simp: q_inv_def)
  with assms False r show ?thesis
    by (auto simp: q_inv_def queue_push_def push_finish_def semaphore_post_def entry_def
        split: if_splits option.splits)
qed

lemma q_inv_push_ok:
  assumes "q_inv q h as" "h a \<noteq> None" "int (length as) < INT_MAX"
  shows "\<exists>q' h'. queue_push q (Some a) h = Inr (q', h')"
proof (cases "as = []")
  case True
  with assms show ?thesis
    by (auto simp: q_inv_def queue_push_def push_finish_def semaphore_post_def INT_MAX_def
        split: if_splits option.splits)
next
  case False
  with assms have "h (last as) \<noteq> None"
    using chain_dom [of h "front q" as "last as"] by (auto simp: q_inv_def)
  with assms False show ?thesis
    by (auto simp: q_inv_def queue_push_def push_finish_def semaphore_post_def
        split: if_splits option.splits)
qed

lemma q_inv_pull:
  assumes "q_inv q h as" "queue_pull q h = Inr (tp, q')"
  shows "(as = [] \<and> tp = None \<and> q' = q) \<or> (\<exists>a bs. as = a # bs \<and> tp = Some a \<and> q_inv q' h bs)"
proof (cases as)
  case Nil
  with assms show ?thesis by (auto simp: q_inv_def queue_pull_def)
next
  case (Cons a bs)
  with assms obtain tk where tk: "front q = Some a" "h a = Some tk" "chain h (previous tk) bs"
    by (auto simp: q_inv_def split: option.splits)
  show ?thesis
  proof (cases bs)
    case Nil
    with assms Cons tk show ?thesis by (auto simp: q_inv_def queue_pull_def)
  next
    case (Cons b cs)
    with assms \<open>as = a # bs\<close> tk show ?thesis
      by (auto simp: q_inv_def queue_pull_def Let_def semaphore_post_def split: if_splits option.splits)
  qed
qed

lemma q_inv_pull_ok:
  assumes "q_inv q h as"
  shows "\<exists>tp q'. queue_pull q h = Inr (tp, q')"
proof (cases as)
  case Nil
  with assms show ?thesis by (auto simp: q_inv_def queue_pull_def)
next
  case (Cons a bs)
  with assms obtain tk where tk: "front q = Some a" "h a = Some tk"
    by (auto simp: q_inv_def split: option.splits)
  with assms Cons show ?thesis
    by (auto simp: q_inv_def queue_pull_def Let_def semaphore_post_def INT_MIN_def split: if_splits option.splits)
qed

lemma q_inv_free: "q_inv q h as \<Longrightarrow> a \<notin> set as \<Longrightarrow> q_inv q (h(a := v)) as"
  by (simp add: q_inv_def chain_update_other)

lemma q_inv_clear_loop:
  "q_inv q h as \<Longrightarrow>
   \<exists>q'. queue_clear_loop q h = Inr (q', h |` (- set as)) \<and> q_inv q' (h |` (- set as)) []"
proof (induction as arbitrary: q h)
  case Nil
  then have "number_of_tasks q = 0" by (simp add: q_inv_def)
  then have "queue_clear_loop q h = Inr (q, h)" by (subst queue_clear_loop.simps) simp
  with Nil show ?case by simp
next
  case (Cons a bs)
  then have n: "number_of_tasks q \<noteq> 0" by (simp add: q_inv_def)
  from q_inv_pull_ok [OF Cons.prems] obtain tp q1 where p: "queue_pull q h = Inr (tp, q1)"
    by blast
  from q_inv_pull [OF Cons.prems p] have tp: "tp = Some a" and q1: "q_inv q1 h bs" by auto
  from Cons.prems have ha: "h a \<noteq> None" and nb: "a \<notin> set bs"
    using chain_dom [of h "front q" "a # bs" a] by (auto simp: q_inv_def)
  from ha tp have f: "free_task tp h = Inr (h(a := None))" by (simp add: free_task_def)
  from q_inv_free [OF q1 nb] have "q_inv q1 (h(a := None)) bs" .
  from Cons.IH [OF this] obtain q' where
    l: "queue_clear_loop q1 (h(a := None)) = Inr (q', (h(a := None)) |` (- set bs))"
    and i: "q_inv q' ((h(a := None)) |` (- set bs)) []" by blast
  have e: "(h(a := None)) |` (- set bs) = h |` (- set (a # bs))"
    by (rule ext) (simp add: restrict_map_def)
  have "queue_clear_loop q h = queue_clear_loop q1 (h(a := None))"
    using n p f by (subst queue_clear_loop.simps) simp
  with l i e show ?case by simp
qed

lemma q_inv_clear:
  assumes "q_inv q h as"
  shows "\<exists>q'. queue_clear q h = Inr (q', h |` (- set as)) \<and> q_inv q' (h |` (- set as)) []"
proof -
  from q_inv_clear_loop [OF assms] obtain q1 where
    l: "queue_clear_loop q h = Inr (q1, h |` (- set as))" and i: "q_inv q1 (h |` (- set as)) []"
    by blast
  then show ?thesis
    by (auto simp: queue_clear_def semaphore_reset_def semaphore_init_def q_inv_def)
qed

lemma qsys_inv_push:
  assumes "qsys_inv s as" "queue_step (Push f c (a, blk)) s = Inr (out, s')"
  shows "out = None \<and> qsys_inv s' (as @ [a]) \<and>
         map (entry (the_heap s')) (as @ [a]) = map (entry (the_heap s)) as @ [(a, f, c)]"
proof -
  let ?h = "(the_heap s)(a \<mapsto> blk\<lparr>task_function := f, wc := c\<rparr>)"
  from assms have fresh: "the_heap s a = None" by (auto split: if_splits)
  with assms have na: "a \<notin> set as" "a \<notin> set (held s)"
    using chain_dom [of "the_heap s" "front (the_queue s)" as a]
    by (auto simp: qsys_inv_def q_inv_def)
  from assms fresh obtain q' h' where
    p: "queue_push (the_queue s) (Some a) ?h = Inr (q', h')"
    and s': "s' = s\<lparr>the_queue := q', the_heap := h'\<rparr>" and out: "out = None"
    by (auto split: sum.splits)
  from assms na have "q_inv (the_queue s) ?h as" by (simp add: qsys_inv_def q_inv_free)
  from q_inv_push [OF this _ na(1) p]
  have i: "q_inv q' h' (as @ [a])" and e: "\<And>b. entry h' b = entry ?h b"
    and d: "\<And>b. h' b = None \<longleftrightarrow> ?h b = None" by auto
  have "\<And>b. b \<in> set as \<Longrightarrow> entry ?h b = entry (the_heap s) b"
    using na by (auto simp: entry_def)
  then have "map (entry h') as = map (entry (the_heap s)) as"
    by (simp add: e)
  moreover have "entry ?h a = (a, f, c)" by (simp add: entry_def)
  then have "entry h' a = (a, f, c)" by (simp only: e)
  moreover have "qsys_inv s' (as @ [a])"
    using assms(1) i na d by (auto simp: qsys_inv_def s')
  ultimately show ?thesis using out by (simp add: s')
qed

lemma qsys_inv_pull:
  assumes "qsys_inv s as" "queue_step Pull s = Inr (out, s')"
  shows "(as = [] \<and> out = None \<and> s' = s) \<or>
         (\<exists>a bs. as = a # bs \<and> out = Some (entry (the_heap s) a) \<and> qsys_inv s' bs \<and>
                  the_heap s' = the_heap s)"
proof -
  from assms obtain tp q' where p: "queue_pull (the_queue s) (the_heap s) = Inr (tp, q')"
    by (auto split: sum.splits)
  from assms have "q_inv (the_queue s) (the_heap s) as" by (simp add: qsys_inv_def)
  from q_inv_pull [OF this p] show ?thesis
  proof
    assume "as = [] \<and> tp = None \<and> q' = the_queue s"
    with assms p show ?thesis by auto
  next
    assume "\<exists>a bs. as = a # bs \<and> tp = Some a \<and> q_inv q' (the_heap s) bs"
    then obtain a bs where a: "as = a # bs" "tp = Some a" "q_inv q' (the_heap s) bs" by blast
    with assms have "the_heap s a \<noteq> None"
      using chain_dom [of "the_heap s" "front (the_queue s)" as a]
      by (auto simp: qsys_inv_def q_inv_def)
    then obtain tk where tk: "the_heap s a = Some tk" by auto
    with assms p a have "out = Some (entry (the_heap s) a)"
      and s': "s' = s\<lparr>the_queue := q', held := a # held s\<rparr>"
      by (auto simp: entry_def)
    moreover have "qsys_inv s' bs"
      using assms(1) a tk by (auto simp: qsys_inv_def s' q_inv_def)
    ultimately show ?thesis using a by auto
  qed
qed

lemma qsys_inv_free:
  assumes "qsys_inv s as" "queue_step (Free a) s = Inr (out, s')"
  shows "out = None \<and> qsys_inv s' as \<and>
         map (entry (the_heap s')) as = map (entry (the_heap s)) as"
proof -
  from assms have a: "a \<in> set (held s)" "the_heap s a \<noteq> None" "out = None"
    and s': "s' = s\<lparr>the_heap := (the_heap s)(a := None), held := removeAll a (held s)\<rparr>"
    by (auto simp: free_task_def split: if_splits)
  with assms have na: "a \<notin> set as" by (auto simp: qsys_inv_def)
  then have "map (entry (the_heap s')) as = map (entry (the_heap s)) as"
    by (auto simp: s' entry_def)
  moreover have "qsys_inv s' as"
    using assms(1) na by (auto simp: qsys_inv_def s' q_inv_free distinct_removeAll)
  ultimately show ?thesis using a by simp
qed

lemma qsys_inv_clear:
  assumes "qsys_inv s as" "queue_step Clear s = Inr (out, s')"
  shows "out = None \<and> qsys_inv s' []"
proof -
  from assms have "q_inv (the_queue s) (the_heap s) as" by (simp add: qsys_inv_def)
  from q_inv_clear [OF this] obtain q' where
    c: "queue_clear (the_queue s) (the_heap s) = Inr (q', the_heap s |` (- set as))"
    and i: "q_inv q' (the_heap s |` (- set as)) []" by blast
  with assms have "out = None"
    and s': "s' = s\<lparr>the_queue := q', the_heap := the_heap s |` (- set as)\<rparr>" by auto
  moreover have "qsys_inv s' []"
    using assms(1) i by (auto simp: qsys_inv_def s' restrict_map_def)
  ultimately show ?thesis by simp
qed

lemma qsys_inv_start: "qsys_inv (queue_start q m h) []"
  using q_inv_init [of q m h] by (simp add: qsys_inv_def queue_start_def)

lemma queue_run_inv:
  "queue_run ops s = Inr (outs, s') \<Longrightarrow> qsys_inv s as \<Longrightarrow> \<exists>bs. qsys_inv s' bs"
proof (induction ops arbitrary: s as outs)
  case Nil
  then show ?case by auto
next
  case (Cons x xs)
  then obtain out s1 outs1 where
    st: "queue_step x s = Inr (out, s1)" and r: "queue_run xs s1 = Inr (outs1, s')"
    by (auto split: sum.splits)
  have "\<exists>cs. qsys_inv s1 cs"
  proof (cases x)
    case (Push f c m)
    with st Cons.prems qsys_inv_push [of s as f c "fst m" "snd m" out s1] show ?thesis by auto
  next
    case Pull
    with st Cons.prems qsys_inv_pull [of s as out s1] show ?thesis by auto
  next
    case (Free a)
    with st Cons.prems qsys_inv_free [of s as a out s1] show ?thesis by auto
  next
    case Clear
    with st Cons.prems qsys_inv_clear [of s as out s1] show ?thesis by auto
  qed
  with Cons.IH [OF r] show ?case by blast
qed

lemma queue_run_fifo:
  "queue_run ops s = Inr (outs, s') \<Longrightarrow> qsys_inv s as \<Longrightarrow> Clear \<notin> set ops \<Longrightarrow>
   \<exists>bs. qsys_inv s' bs \<and>
        map (entry (the_heap s)) as @ pushes ops = outs @ map (entry (the_heap s')) bs"
proof (induction ops arbitrary: s as outs)
  case Nil
  then show ?case by auto
next
  case (Cons x xs)
  then obtain out s1 outs1 where
    st: "queue_step x s = Inr (out, s1)" and r: "queue_run xs s1 = Inr (outs1, s')"
    and outs: "outs = (case out of None \<Rightarrow> outs1 | Some y \<Rightarrow> y # outs1)"
    by (auto split: sum.splits)
  from Cons.prems have nc: "Clear \<notin> set xs" by simp
  show ?case
  proof (cases x)
    case (Push f c m)
    obtain a blk where m: "m = (a, blk)" by (cases m)
    from qsys_inv_push [OF Cons.prems(2) st [unfolded Push m]]
    have o: "out = None" and i: "qsys_inv s1 (as @ [a])"
      and e: "map (entry (the_heap s1)) (as @ [a]) = map (entry (the_heap s)) as @ [(a, f, c)]"
      by auto
    from Cons.IH [OF r i nc] obtain bs where
      b: "qsys_inv s' bs"
      "map (entry (the_heap s1)) (as @ [a]) @ pushes xs = outs1 @ map (entry (the_heap s')) bs"
      by blast
    have "map (entry (the_heap s)) as @ pushes (x # xs) =
          map (entry (the_heap s1)) (as @ [a]) @ pushes xs"
      by (simp add: e Push m del: map_append)
    with b o outs show ?thesis by auto
  next
    case Pull
    from qsys_inv_pull [OF Cons.prems(2) st [unfolded Pull]] show ?thesis
    proof
      assume a: "as = [] \<and> out = None \<and> s1 = s"
      with Cons.IH [OF r _ nc, of as] Cons.prems(2) outs Pull show ?thesis by auto
    next
      assume "\<exists>a bs. as = a # bs \<and> out = Some (entry (the_heap s) a) \<and> qsys_inv s1 bs \<and>
                  the_heap s1 = the_heap s"
      then obtain a bs where a: "as = a # bs" "out = Some (entry (the_heap s) a)"
        "qsys_inv s1 bs" "the_heap s1 = the_heap s" by blast
      from Cons.IH [OF r a(3) nc] obtain cs where
        "qsys_inv s' cs"
        "map (entry (the_heap s1)) bs @ pushes xs = outs1 @ map (entry (the_heap s')) cs"
        by blast
      with a outs Pull show ?thesis by auto
    qed
  next
    case (Free a)
    from qsys_inv_free [OF Cons.prems(2) st [unfolded Free]]
    have o: "out = None" and i: "qsys_inv s1 as"
      and e: "map (entry (the_heap s1)) as = map (entry (the_heap s)) as" by auto
    from Cons.IH [OF r i nc] obtain bs where
      b: "qsys_inv s' bs"
      "map (entry (the_heap s1)) as @ pushes xs = outs1 @ map (entry (the_heap s')) bs"
      by blast
    have "map (entry (the_heap s)) as @ pushes (x # xs) =
          map (entry (the_heap s1)) as @ pushes xs"
      by (simp only: e Free pushes.simps)
    with b o outs show ?thesis by auto
  next
    case Clear
    with Cons.prems show ?thesis by simp
  qed
qed

lemma queue_step_defined:
  assumes "qsys_inv s as"
  shows "(\<exists>r. queue_step Pull s = Inr r) \<and> (\<exists>r. queue_step Clear s = Inr r) \<and>
         (a \<in> set (held s) \<longrightarrow> (\<exists>r. queue_step (Free a) s = Inr r)) \<and>
         (the_heap s a = None \<and> int (length as) < INT_MAX \<longrightarrow>
            (\<exists>r. queue_step (Push f c (a, blk)) s = Inr r))"
proof -
  from assms have i: "q_inv (the_queue s) (the_heap s) as" by (simp add: qsys_inv_def)
  from q_inv_pull_ok [OF i] obtain tp q' where
    p: "queue_pull (the_queue s) (the_heap s) = Inr (tp, q')" by blast
  have "\<exists>r. queue_step Pull s = Inr r"
  proof (cases tp)
    case None
    with p show ?thesis by simp
  next
    case (Some t)
    with q_inv_pull [OF i p] have "t \<in> set as" by auto
    with i have "the_heap s t \<noteq> None"
      using chain_dom [of "the_heap s" "front (the_queue s)" as t] by (simp add: q_inv_def)
    with p Some show ?thesis by auto
  qed
  moreover from q_inv_clear [OF i] have "\<exists>r. queue_step Clear s = Inr r" by auto
  moreover have "a \<in> set (held s) \<longrightarrow> (\<exists>r. queue_step (Free a) s = Inr r)"
    using assms by (auto simp: qsys_inv_def free_task_def)
  moreover have "the_heap s a = None \<and> int (length as) < INT_MAX \<longrightarrow>
      (\<exists>r. queue_step (Push f c (a, blk)) s = Inr r)"
  proof
    let ?h = "(the_heap s)(a \<mapsto> blk\<lparr>task_function := f, wc := c\<rparr>)"
    assume a: "the_heap s a = None \<and> int (length as) < INT_MAX"
    with i have "a \<notin> set as"
      using chain_dom [of "the_heap s" "front (the_queue s)" as a] by (auto simp: q_inv_def)
    with i have "q_inv (the_queue s) ?h as" by (simp add: q_inv_free)
    from q_inv_push_ok [OF this, of a] a obtain q' h' where
      "queue_push (the_queue s) (Some a) ?h = Inr (q', h')" by auto
    with a show "\<exists>r. queue_step (Push f c (a, blk)) s = Inr r" by simp
  qed
  ultimately show ?thesis by blast
qed

subsection \<open>The claims about the queue\<close>

text \<open>
  C1. A pull that removes a task (the counter is not zero before): if one or more tasks
  remain afterwards, the pull has posted the queue's semaphore before it returns, and if
  the queue is left empty, it has not: the semaphore is as it was.
\<close>

theorem queue_pull_rearm:
  assumes "queue_pull q h = Inr (tp, q')" and "number_of_tasks q \<noteq> 0"
  shows "(1 \<le> number_of_tasks q' \<longrightarrow> posted (has_tasks q) (has_tasks q')) \<and>
         (number_of_tasks q' = 0 \<longrightarrow> has_tasks q' = has_tasks q)"
  using assms
  by (auto simp: queue_pull_def Let_def posted_def split: if_splits option.splits sum.splits)

theorem queue_pull_rearm_witness:
  "queue_pull queue_of_two two_tasks = Inr (Some 1, queue_of_one) \<and>
   number_of_tasks queue_of_two \<noteq> 0 \<and> 1 \<le> number_of_tasks queue_of_one \<and>
   posted (has_tasks queue_of_two) (has_tasks queue_of_one) \<and>
   queue_pull queue_of_one two_tasks = Inr (Some 2, queue_of_none) \<and>
   number_of_tasks queue_of_none = 0 \<and> has_tasks queue_of_none = has_tasks queue_of_one"
proof -
  have p2: "queue_pull queue_of_two two_tasks = Inr (Some 1, queue_of_one)"
    by (simp add: queue_pull_def queue_of_two_def queue_of_one_def two_tasks_def
        semaphore_post_def INT_MIN_def)
  have p1: "queue_pull queue_of_one two_tasks = Inr (Some 2, queue_of_none)"
    by (simp add: queue_pull_def queue_of_one_def queue_of_none_def)
  have n2: "number_of_tasks queue_of_two \<noteq> 0" by (simp add: queue_of_two_def)
  have n1: "number_of_tasks queue_of_one \<noteq> 0" by (simp add: queue_of_one_def)
  from queue_pull_rearm [OF p2 n2] queue_pull_rearm [OF p1 n1] p2 p1 n2
  show ?thesis by (simp add: queue_of_one_def queue_of_none_def)
qed

lemma queue_pull_zero: "number_of_tasks q = 0 \<Longrightarrow> queue_pull q h = Inr (front q, q)"
  by (simp add: queue_pull_def)

lemma posted_signals:
  "posted sp sp' \<Longrightarrow>
   \<exists>s s'. sp = Some s \<and> sp' = Some s' \<and> sem_value s' = 1 \<and>
     cond_signals s' = cond_signals s + 1"
  by (auto simp: posted_def semaphore_post_def split: option.splits)

text \<open>
  C10. A pull from an empty queue, one whose counter is zero and which satisfies the
  queue's invariant, returns NULL and leaves the queue as it was: counter, head and
  tail are unchanged and the semaphore is not posted.
\<close>

theorem queue_pull_empty:
  assumes "number_of_tasks q = 0" and "queue_invariant q h"
  shows "queue_pull q h = Inr (None, q)"
  using assms by (auto simp: queue_pull_def queue_invariant_def)

theorem queue_pull_empty_witness:
  "number_of_tasks queue_of_none = 0 \<and> queue_invariant queue_of_none two_tasks \<and>
   queue_pull queue_of_none two_tasks = Inr (None, queue_of_none)"
proof -
  have n: "number_of_tasks queue_of_none = 0" by (simp add: queue_of_none_def)
  have i: "queue_invariant queue_of_none two_tasks"
    by (simp add: queue_invariant_def queue_of_none_def)
  from queue_pull_empty [OF n i] n i show ?thesis by simp
qed

text \<open>
  C3. First in, first out: in every run of pushes, pulls and frees on a queue that was
  initialised, the tasks that the pulls return (address, function and argument) are, in
  this order, the first of the tasks that were pushed.
\<close>

theorem fifo_order:
  assumes "queue_run ops (queue_start q m h) = Inr (outs, s)" and "Clear \<notin> set ops"
  shows "prefix outs (pushes ops)"
  using queue_run_fifo [OF assms(1) qsys_inv_start assms(2)] by (auto simp: prefix_def)

theorem fifo_order_witness:
  "map_sum id fst (queue_run busy_day (queue_start raw_queue raw_semaphore Map.empty)) =
     Inr [(1, 10, Some 100), (2, 20, None), (3, 30, Some 300), (1, 40, None)] \<and>
   Clear \<notin> set busy_day \<and>
   prefix [(1, 10, Some 100), (2, 20, None), (3, 30, Some 300), (1, 40, None)]
     (pushes busy_day)"
proof -
  let ?r = "queue_run busy_day (queue_start raw_queue raw_semaphore Map.empty)"
  let ?outs = "[(1, 10, Some 100), (2, 20, None), (3, 30, Some 300), (1, 40, None)]"
  have r: "map_sum id fst ?r = Inr ?outs"
    by (simp add: busy_day_def task_block_def raw_queue_def raw_semaphore_def queue_start_def
        queue_init_def semaphore_init_def queue_push_def push_finish_def semaphore_post_def
        queue_pull_def free_task_def INT_MAX_def INT_MIN_def Let_def)
  then obtain s where s: "?r = Inr (?outs, s)" by (cases ?r) auto
  have c: "Clear \<notin> set busy_day" by (simp add: busy_day_def)
  from fifo_order [OF s c] r c show ?thesis by simp
qed

text \<open>
  C5. The invariant of the queue holds after \<open>queue_init\<close> and after every run of
  pushes, pulls, frees and clears that follows: the counter is zero exactly when head
  and tail are both NULL, and the counter is the number of linked tasks reachable from
  the head.
\<close>

theorem queue_invariant_holds:
  assumes "queue_run ops (queue_start q m h) = Inr (outs, s)"
  shows "queue_invariant (the_queue s) (the_heap s)"
  using queue_run_inv [OF assms qsys_inv_start] by (auto simp: qsys_inv_def dest: q_inv_invariant)

theorem queue_invariant_holds_witness:
  "(case queue_run last_day (queue_start raw_queue raw_semaphore Map.empty) of
      Inl e \<Rightarrow> False
    | Inr (outs, s) \<Rightarrow>
        outs = [(1, 10, Some 100)] \<and> number_of_tasks (the_queue s) = 0 \<and>
        queue_invariant (the_queue s) (the_heap s))"
proof -
  let ?r = "queue_run last_day (queue_start raw_queue raw_semaphore Map.empty)"
  have r: "map_sum id (\<lambda>(outs, s). (outs, number_of_tasks (the_queue s))) ?r =
           Inr ([(1, 10, Some 100)], 0)"
    by (simp add: last_day_def task_block_def raw_queue_def raw_semaphore_def queue_start_def
        queue_init_def semaphore_init_def queue_push_def push_finish_def semaphore_post_def
        queue_pull_def free_task_def queue_clear_def semaphore_reset_def
        INT_MAX_def INT_MIN_def Let_def)
  then obtain outs s where s: "?r = Inr (outs, s)" by (cases ?r) auto
  from queue_invariant_holds [OF s] r s show ?thesis by simp
qed

section \<open>Properties of the pool\<close>

text \<open>The definitions that the runs of the examples unfold.\<close>

lemmas scenario_defs =
  first_task_def one_worker_def two_submits_def boot_def raw_pool_def raw_queue_def
  raw_semaphore_def task_block_def workers_initialize_setup_def queue_init_def
  semaphore_init_def worker_init_def set_pool_def set_thread_def worker_do_def in_pool_def
  pgmoneta_workers_add_def queue_push_def push_finish_def semaphore_post_def
  semaphore_wait_def queue_pull_def INT_MAX_def INT_MIN_def Let_def

lemma reachable_run: "reachable s \<Longrightarrow> run xs s = Inr s' \<Longrightarrow> reachable s'"
proof (induction xs arbitrary: s)
  case Nil
  then show ?case by simp
next
  case (Cons x xs)
  then obtain s1 where f: "fire x s = Inr s1" and r: "run xs s1 = Inr s'"
    by (auto split: sum.splits)
  from Cons.prems(1) f have "reachable s1" by (rule reachable_fire)
  from Cons.IH [OF this r] show ?case .
qed

lemma worker_init_all_frame:
  "worker_init_all p ms s = (slots, s') \<Longrightarrow>
   slots = ms \<and> pools s' = pools s \<and> task_heap s' = task_heap s \<and>
   worker_keepalive s' = worker_keepalive s"
proof (induction ms arbitrary: s slots s')
  case Nil
  then show ?case by simp
next
  case (Cons m ms)
  obtain rc slot s1 where i: "worker_init p m s = (rc, slot, s1)" by (cases "worker_init p m s")
  obtain slots1 s2 where a: "worker_init_all p ms s1 = (slots1, s2)"
    by (cases "worker_init_all p ms s1")
  from i have "slot = m \<and> pools s1 = pools s \<and> task_heap s1 = task_heap s \<and>
      worker_keepalive s1 = worker_keepalive s"
    by (auto simp: worker_init_def set_thread_def split: option.splits)
  with Cons.IH [OF a] Cons.prems i a show ?case by auto
qed

lemma initialize_error_frame:
  "initialize_error q s = Inr (r, s') \<Longrightarrow>
   r = None \<and> pools s' = pools s \<and> threads s' = threads s \<and>
   worker_keepalive s' = worker_keepalive s"
  by (auto simp: initialize_error_def split: sum.splits)

lemma setup_keepalive:
  "workers_initialize_setup num mw ms ma mk s = Inr (r, s') \<Longrightarrow> worker_keepalive s' = 1"
proof -
  assume a: "workers_initialize_setup num mw ms ma mk s = Inr (r, s')"
  show ?thesis
  proof (cases "num < 1 \<or> mw = None")
    case True
    with a show ?thesis by (auto simp: workers_initialize_setup_def Let_def split: if_splits)
  next
    case False
    then obtain p blk where mw: "mw = Some (p, blk)" by (cases mw) auto
    obtain slots s1 where w: "worker_init_all p (map mk [0..<nat num]) (s\<lparr>worker_keepalive := 1\<rparr>)
        = (slots, s1)" by (cases "worker_init_all p (map mk [0..<nat num]) (s\<lparr>worker_keepalive := 1\<rparr>)")
    from worker_init_all_frame [OF w] have "worker_keepalive s1 = 1" by simp
    with a False mw w show ?thesis
      by (auto simp: workers_initialize_setup_def Let_def set_pool_def
          split: prod.splits if_splits dest: initialize_error_frame)
  qed
qed

lemma setup_pools:
  assumes "workers_initialize_setup num mw ms ma mk s = Inr (r, s')"
    and "case mw of None \<Rightarrow> True | Some (p', blk) \<Rightarrow> p' \<noteq> p"
  shows "pools s' p = pools s p"
proof (cases "num < 1 \<or> mw = None")
  case True
  with assms show ?thesis by (auto simp: workers_initialize_setup_def Let_def split: if_splits)
next
  case False
  then obtain p' blk where mw: "mw = Some (p', blk)" by (cases mw) auto
  obtain slots s1 where w: "worker_init_all p' (map mk [0..<nat num]) (s\<lparr>worker_keepalive := 1\<rparr>)
      = (slots, s1)" by (cases "worker_init_all p' (map mk [0..<nat num]) (s\<lparr>worker_keepalive := 1\<rparr>)")
  from worker_init_all_frame [OF w] have "pools s1 = pools s" by simp
  with assms False mw w show ?thesis
    by (auto simp: workers_initialize_setup_def Let_def set_pool_def
        split: prod.splits if_splits dest: initialize_error_frame)
qed

lemma worker_do_idle_signal:
  assumes "worker_do a s = Inr s'" "pools s p = Some w" "pools s' p = Some w'"
    "idle_signals w' \<noteq> idle_signals w"
  shows "number_of_working w' = 0 \<and> idle_signals w' = idle_signals w + 1 \<and> queue w' = queue w \<and>
         (\<exists>wk. threads s a = Some wk \<and> pc wk = Finishing \<and> workers wk = p)"
proof -
  from assms(1) obtain wk where wk: "threads s a = Some wk"
    by (auto simp: worker_do_def split: option.splits)
  show ?thesis
  proof (cases "pc wk")
    case Finishing
    with assms wk show ?thesis
      by (auto simp: worker_do_def in_pool_def set_pool_def set_thread_def Let_def
          split: option.splits if_splits)
  qed (use assms wk in \<open>auto simp: worker_do_def in_pool_def set_pool_def set_thread_def Let_def
          split: option.splits if_splits sum.splits prod.splits\<close>)
qed

lemma fire_idle_signal:
  assumes "fire x s = Inr s'" "pools s p = Some w" "pools s' p = Some w'"
    "idle_signals w' \<noteq> idle_signals w"
  shows "number_of_working w' = 0 \<and> idle_signals w' = idle_signals w + 1 \<and> queue w' = queue w \<and>
         (\<exists>a wk. x = Step a \<and> threads s a = Some wk \<and> pc wk = Finishing \<and> workers wk = p)"
proof (cases x)
  case (Step a)
  with assms worker_do_idle_signal [of a s s' p w w'] show ?thesis by auto
next
  case (Add wp f c m)
  with assms show ?thesis
    by (auto simp: pgmoneta_workers_add_def set_pool_def
        split: option.splits sum.splits prod.splits if_splits)
next
  case (Setup num mw ms ma mks)
  with assms have m: "map_sum id snd (workers_initialize_setup num mw ms ma (\<lambda>n. mks ! n) s) = Inr s'"
    and f: "case mw of None \<Rightarrow> True | Some (p', blk) \<Rightarrow> p' \<noteq> p"
    by (auto split: if_splits option.splits)
  from m obtain r where "workers_initialize_setup num mw ms ma (\<lambda>n. mks ! n) s = Inr (r, s')"
    by (cases "workers_initialize_setup num mw ms ma (\<lambda>n. mks ! n) s") auto
  from setup_pools [OF this f] assms show ?thesis by simp
next
  case (Shutdown p')
  with assms show ?thesis by (auto simp: workers_destroy_begin_def in_pool_def split: option.splits)
next
  case (Post p')
  with assms show ?thesis
    by (auto simp: workers_destroy_post_def in_pool_def set_pool_def
        split: option.splits sum.splits if_splits)
next
  case (Teardown p' n)
  with assms show ?thesis
    by (auto simp: workers_destroy_end_def in_pool_def
        split: option.splits sum.splits if_splits prod.splits)
qed

lemma first_task_runs:
  "map_sum id (\<lambda>s. (map_option idle_signals (pools s 50),
      map_sum id (\<lambda>s'. map_option (\<lambda>w'. (idle_signals w', number_of_working w',
          number_of_tasks (queue w'))) (pools s' 50)) (fire (Step 60) s)))
     (run first_task boot) = Inr (Some 0, Inr (Some (1, 0, 1)))"
  by (simp add: scenario_defs)

lemma workers_wait_drained:
  "pgmoneta_workers_wait (Some p) sched s = Inr s' \<Longrightarrow>
   \<exists>w. pools s' p = Some w \<and> number_of_tasks (queue w) = 0 \<and> number_of_working w = 0"
  unfolding pgmoneta_workers_wait_def option.case
  by (induction sched arbitrary: s)
     (auto simp: in_pool_def split: option.splits if_splits sum.splits)

text \<open>
  C2, as the code has it. Whenever a transition of the process signals the idle condition
  of a pool, the pool's count of working workers is zero after it: the transition is the
  end of a worker's turn (lines 339-345), which has just brought the count down to zero
  under the pool's lock. The transition does not read or change the queue: the number
  of queued tasks is whatever it was, zero or not.
\<close>

theorem idle_signal_when_not_working:
  assumes "reachable s" and "fire x s = Inr s'" and "pools s p = Some w"
    and "pools s' p = Some w'" and "idle_signals w' \<noteq> idle_signals w"
  shows "number_of_working w' = 0 \<and> idle_signals w' = idle_signals w + 1 \<and>
         number_of_tasks (queue w') = number_of_tasks (queue w) \<and>
         (\<exists>a wk. x = Step a \<and> threads s a = Some wk \<and> pc wk = Finishing \<and> workers wk = p)"
  using fire_idle_signal [OF assms(2-5)] by simp

theorem idle_signal_when_not_working_witness:
  "(case run first_task boot of
      Inl e \<Rightarrow> False
    | Inr s \<Rightarrow>
        reachable s \<and>
        (case fire (Step 60) s of
           Inl e \<Rightarrow> False
         | Inr s' \<Rightarrow>
             map_option idle_signals (pools s 50) = Some 0 \<and>
             map_option idle_signals (pools s' 50) = Some 1 \<and>
             map_option number_of_working (pools s' 50) = Some 0))"
proof -
  from first_task_runs obtain s where s: "run first_task boot = Inr s"
    by (cases "run first_task boot") auto
  with first_task_runs obtain s' where s': "fire (Step 60) s = Inr s'"
    by (cases "fire (Step 60) s") auto
  from first_task_runs s s' obtain w w' where w: "pools s 50 = Some w" "idle_signals w = 0"
    "pools s' 50 = Some w'" "idle_signals w' = 1"
    by auto
  have r: "reachable s" using reachable_boot s by (rule reachable_run)
  from w have "idle_signals w' \<noteq> idle_signals w" by simp
  from idle_signal_when_not_working [OF r s' w(1) w(3) this] r s s' w show ?thesis by simp
qed

text \<open>
  C2 as stated fails: with one worker and two submitted tasks, the worker signals the
  idle condition at the end of the first task, while the second is still queued.
\<close>

theorem idle_signal_counterexample:
  "\<not> (\<forall>s x s' p w w'. reachable s \<longrightarrow> fire x s = Inr s' \<longrightarrow> pools s p = Some w \<longrightarrow>
        pools s' p = Some w' \<longrightarrow> idle_signals w' \<noteq> idle_signals w \<longrightarrow>
        number_of_tasks (queue w') = 0 \<and> number_of_working w' = 0)"
proof
  assume a: "\<forall>s x s' p w w'. reachable s \<longrightarrow> fire x s = Inr s' \<longrightarrow> pools s p = Some w \<longrightarrow>
        pools s' p = Some w' \<longrightarrow> idle_signals w' \<noteq> idle_signals w \<longrightarrow>
        number_of_tasks (queue w') = 0 \<and> number_of_working w' = 0"
  from first_task_runs obtain s where s: "run first_task boot = Inr s"
    by (cases "run first_task boot") auto
  with first_task_runs obtain s' where s': "fire (Step 60) s = Inr s'"
    by (cases "fire (Step 60) s") auto
  from first_task_runs s s' obtain w w' where w: "pools s 50 = Some w" "idle_signals w = 0"
    "pools s' 50 = Some w'" "idle_signals w' = 1" "number_of_tasks (queue w') = 1"
    by auto
  have "reachable s" using reachable_boot s by (rule reachable_run)
  with a s' w have "number_of_tasks (queue w') = 0" by (metis zero_neq_one)
  with w show False by simp
qed

lemma initialize_wait_alive:
  "workers_initialize_wait p num sched s = Inr s' \<Longrightarrow>
   \<exists>w. pools s' p = Some w \<and> number_of_alive w = num"
  by (induction sched arbitrary: s)
     (auto simp: in_pool_def split: option.splits if_splits sum.splits)

lemma initialize_wait_done:
  "pools s p = Some w \<Longrightarrow> number_of_alive w = num \<Longrightarrow> workers_initialize_wait p num sched s = Inr s"
  by (cases sched) (auto simp: in_pool_def)

lemma setup_one:
  "workers_initialize_setup 1 (Some (p, blk)) (Some sm) True mk s =
   Inr (Some p,
        set_pool p
          \<lparr>number_of_alive = 0, number_of_working = 0, outcome = True,
            queue = \<lparr>number_of_tasks = 0, front = None, rear = None,
                      has_tasks = Some \<lparr>sem_value = 0, cond_signals = 0, cond_broadcasts = 0\<rparr>\<rparr>,
            worker = [mk 0], idle_signals = 0\<rparr>
          (case mk 0 of None \<Rightarrow> s\<lparr>worker_keepalive := 1\<rparr>
           | Some a \<Rightarrow> set_thread a \<lparr>workers = p, pc = Starting, local_t = None\<rparr>
                         (s\<lparr>worker_keepalive := 1\<rparr>)))"
  by (cases blk, cases "queue blk")
     (auto simp: workers_initialize_setup_def queue_init_def semaphore_init_def worker_init_def
        Let_def split: option.splits)

text \<open>
  C4. For every size below 1, \<open>pgmoneta_workers_initialize\<close> returns 1 and leaves
  the output pointer NULL; no thread and no pool is added to the process (only
  \<open>worker_keepalive\<close> is 1 afterwards). For size 1, when the allocations succeed and the
  new thread gets to run, it returns 0 with the pool, in which \<open>number_of_alive\<close> is 1
  and whose only worker thread stands in its loop; and whenever the call for size 1
  returns at all after its allocations, it returns 0 and \<open>number_of_alive\<close> is 1.
\<close>

theorem workers_initialize_boundary:
  "(num < 1 \<longrightarrow>
      pgmoneta_workers_initialize num mw ms ma mk sched s =
        Inr (1, None, s\<lparr>worker_keepalive := 1\<rparr>)) \<and>
   (mk 0 = Some a \<longrightarrow>
      pgmoneta_workers_initialize 1 (Some (p, blk)) (Some sm) True mk ([Step a] # sched) s =
        Inr (0, Some p,
             set_thread a \<lparr>workers = p, pc = Testing, local_t = None\<rparr>
               (set_pool p
                  \<lparr>number_of_alive = 1, number_of_working = 0, outcome = True,
                    queue = \<lparr>number_of_tasks = 0, front = None, rear = None,
                      has_tasks = Some \<lparr>sem_value = 0, cond_signals = 0, cond_broadcasts = 0\<rparr>\<rparr>,
                    worker = [Some a], idle_signals = 0\<rparr>
                  (s\<lparr>worker_keepalive := 1\<rparr>)))) \<and>
   (\<forall>rc out s'.
      pgmoneta_workers_initialize 1 (Some (p, blk)) (Some sm) True mk sched s = Inr (rc, out, s')
      \<longrightarrow> rc = 0 \<and> out = Some p \<and> (\<exists>w. pools s' p = Some w \<and> number_of_alive w = 1))"
proof -
  have c1: "num < 1 \<longrightarrow> pgmoneta_workers_initialize num mw ms ma mk sched s =
        Inr (1, None, s\<lparr>worker_keepalive := 1\<rparr>)"
    by (simp add: pgmoneta_workers_initialize_def workers_initialize_setup_def)
  let ?w = "\<lparr>number_of_alive = 1, number_of_working = 0, outcome = True,
             queue = \<lparr>number_of_tasks = 0, front = None, rear = None,
                 has_tasks = Some \<lparr>sem_value = 0, cond_signals = 0, cond_broadcasts = 0\<rparr>\<rparr>,
             worker = [Some a], idle_signals = 0\<rparr>"
  let ?s2 = "set_thread a \<lparr>workers = p, pc = Testing, local_t = None\<rparr>
               (set_pool p ?w (s\<lparr>worker_keepalive := 1\<rparr>))"
  have "pools ?s2 p = Some ?w" by (simp add: set_thread_def set_pool_def)
  then have "workers_initialize_wait p 1 sched ?s2 = Inr ?s2"
    by (rule initialize_wait_done) simp
  then have c2: "mk 0 = Some a \<longrightarrow>
      pgmoneta_workers_initialize 1 (Some (p, blk)) (Some sm) True mk ([Step a] # sched) s =
      Inr (0, Some p, ?s2)"
    by (simp add: pgmoneta_workers_initialize_def setup_one in_pool_def set_pool_def
        set_thread_def worker_do_def)
  have c3: "\<forall>rc out s'.
      pgmoneta_workers_initialize 1 (Some (p, blk)) (Some sm) True mk sched s = Inr (rc, out, s')
      \<longrightarrow> rc = 0 \<and> out = Some p \<and> (\<exists>w. pools s' p = Some w \<and> number_of_alive w = 1)"
  proof (intro allI impI)
    fix rc out s'
    assume "pgmoneta_workers_initialize 1 (Some (p, blk)) (Some sm) True mk sched s
      = Inr (rc, out, s')"
    then have r: "rc = 0 \<and> out = Some p" and
      "\<exists>s1. workers_initialize_wait p 1 sched s1 = Inr s'"
      by (auto simp: pgmoneta_workers_initialize_def setup_one split: sum.splits)
    then obtain s1 where "workers_initialize_wait p 1 sched s1 = Inr s'" by blast
    from initialize_wait_alive [OF this] r
    show "rc = 0 \<and> out = Some p \<and> (\<exists>w. pools s' p = Some w \<and> number_of_alive w = 1)"
      by simp
  qed
  from c1 c2 c3 show ?thesis by blast
qed

theorem workers_initialize_boundary_witness:
  "pgmoneta_workers_initialize 0 (Some (50, raw_pool)) (Some raw_semaphore) True
     (\<lambda>n. Some (60 + n)) [[Step 60]] boot = Inr (1, None, boot\<lparr>worker_keepalive := 1\<rparr>) \<and>
   pgmoneta_workers_initialize (- 1) (Some (50, raw_pool)) (Some raw_semaphore) True
     (\<lambda>n. Some (60 + n)) [[Step 60]] boot = Inr (1, None, boot\<lparr>worker_keepalive := 1\<rparr>) \<and>
   pgmoneta_workers_initialize 1 (Some (50, raw_pool)) (Some raw_semaphore) True
     (\<lambda>n. Some (60 + n)) [[Step 60]] boot =
     Inr (0, Some 50,
          \<lparr>worker_keepalive = 1, task_heap = Map.empty,
            pools = [50 \<mapsto> \<lparr>number_of_alive = 1, number_of_working = 0, outcome = True,
                queue = \<lparr>number_of_tasks = 0, front = None, rear = None,
                  has_tasks = Some \<lparr>sem_value = 0, cond_signals = 0, cond_broadcasts = 0\<rparr>\<rparr>,
                worker = [Some 60], idle_signals = 0\<rparr>],
            threads = [60 \<mapsto> \<lparr>workers = 50, pc = Testing, local_t = None\<rparr>]\<rparr>)"
proof -
  let ?mk = "\<lambda>n::nat. Some (60 + n)"
  have a: "pgmoneta_workers_initialize 0 (Some (50, raw_pool)) (Some raw_semaphore) True
     ?mk [[Step 60]] boot = Inr (1, None, boot\<lparr>worker_keepalive := 1\<rparr>)"
    using workers_initialize_boundary [where num = 0 and mw = "Some (50, raw_pool)"
      and ms = "Some raw_semaphore" and ma = True and mk = ?mk
      and sched = "[[Step 60]]" and s = boot, THEN conjunct1] by simp
  have b: "pgmoneta_workers_initialize (- 1) (Some (50, raw_pool)) (Some raw_semaphore) True
     ?mk [[Step 60]] boot = Inr (1, None, boot\<lparr>worker_keepalive := 1\<rparr>)"
    using workers_initialize_boundary [where num = "- 1" and mw = "Some (50, raw_pool)"
      and ms = "Some raw_semaphore" and ma = True and mk = ?mk
      and sched = "[[Step 60]]" and s = boot, THEN conjunct1] by simp
  have c: "pgmoneta_workers_initialize 1 (Some (50, raw_pool)) (Some raw_semaphore) True
     ?mk [[Step 60]] boot =
     Inr (0, Some 50,
          set_thread 60 \<lparr>workers = 50, pc = Testing, local_t = None\<rparr>
            (set_pool 50
               \<lparr>number_of_alive = 1, number_of_working = 0, outcome = True,
                 queue = \<lparr>number_of_tasks = 0, front = None, rear = None,
                   has_tasks = Some \<lparr>sem_value = 0, cond_signals = 0, cond_broadcasts = 0\<rparr>\<rparr>,
                 worker = [Some 60], idle_signals = 0\<rparr>
               (boot\<lparr>worker_keepalive := 1\<rparr>)))"
    using workers_initialize_boundary [where mk = ?mk and a = 60 and p = 50
      and blk = raw_pool and sm = raw_semaphore and sched = "[]" and s = boot,
      THEN conjunct2, THEN conjunct1] by simp
  show ?thesis
    unfolding a b c by (simp add: boot_def set_thread_def set_pool_def)
qed

lemma fire_quiet_keepalive:
  "fire x s = Inr s' \<Longrightarrow> quiet x \<Longrightarrow> worker_keepalive s' = worker_keepalive s"
proof (cases x)
  case (Step a)
  assume "fire x s = Inr s'"
  with Step show ?thesis
    by (auto simp: worker_do_def in_pool_def set_pool_def set_thread_def Let_def
        split: option.splits pc.splits sum.splits prod.splits)
next
  case (Add wp f c m)
  assume "fire x s = Inr s'"
  with Add show ?thesis
    by (auto simp: pgmoneta_workers_add_def set_pool_def
        split: option.splits sum.splits prod.splits if_splits)
qed auto

lemma run_quiet_keepalive:
  "run xs s = Inr s' \<Longrightarrow> list_all quiet xs \<Longrightarrow> worker_keepalive s' = worker_keepalive s"
proof (induction xs arbitrary: s)
  case Nil
  then show ?case by simp
next
  case (Cons x xs)
  then obtain s1 where f: "fire x s = Inr s1" and r: "run xs s1 = Inr s'"
    by (auto split: sum.splits)
  from Cons.prems have "quiet x" "list_all quiet xs" by auto
  with fire_quiet_keepalive [OF f] Cons.IH [OF r] show ?case by simp
qed

lemma initialize_wait_keepalive:
  "workers_initialize_wait p num sched s = Inr s' \<Longrightarrow> list_all (list_all quiet) sched \<Longrightarrow>
   worker_keepalive s' = worker_keepalive s"
proof (induction sched arbitrary: s)
  case Nil
  then show ?case by (auto simp: in_pool_def split: option.splits if_splits)
next
  case (Cons b bs)
  show ?case
  proof (cases "workers_initialize_wait p num (b # bs) s = Inr s \<and> s' = s")
    case True
    then show ?thesis by simp
  next
    case False
    with Cons.prems obtain s1 where r: "run b s = Inr s1"
      and w: "workers_initialize_wait p num bs s1 = Inr s'"
      by (auto simp: in_pool_def split: option.splits if_splits sum.splits)
    from Cons.prems have "list_all quiet b" "list_all (list_all quiet) bs" by auto
    with run_quiet_keepalive [OF r] Cons.IH [OF w] show ?thesis by simp
  qed
qed

lemma destroy_wait_keepalive:
  "workers_destroy_wait p sched s = Inr s' \<Longrightarrow> list_all (list_all quiet) sched \<Longrightarrow>
   worker_keepalive s' = worker_keepalive s"
proof (induction sched arbitrary: s)
  case Nil
  then show ?case by (auto simp: in_pool_def split: option.splits if_splits)
next
  case (Cons b bs)
  show ?case
  proof (cases "workers_destroy_wait p (b # bs) s = Inr s \<and> s' = s")
    case True
    then show ?thesis by simp
  next
    case False
    with Cons.prems obtain s0 s1 where p: "workers_destroy_post p s = Inr s0"
      and r: "run b s0 = Inr s1" and w: "workers_destroy_wait p bs s1 = Inr s'"
      by (auto simp: in_pool_def split: option.splits if_splits sum.splits)
    from p have "worker_keepalive s0 = worker_keepalive s"
      by (auto simp: workers_destroy_post_def in_pool_def set_pool_def
          split: option.splits sum.splits)
    moreover from Cons.prems have "list_all quiet b" "list_all (list_all quiet) bs" by auto
    ultimately show ?thesis using run_quiet_keepalive [OF r] Cons.IH [OF w] by simp
  qed
qed

lemma destroy_end_keepalive:
  "workers_destroy_end p n s = Inr s' \<Longrightarrow> worker_keepalive s' = worker_keepalive s"
  by (auto simp: workers_destroy_end_def in_pool_def
      split: option.splits sum.splits prod.splits if_splits)

text \<open>
  C8. The run/stop state is the one variable \<open>worker_keepalive\<close> of the process, not a
  field of a pool. \<open>pgmoneta_workers_initialize\<close> sets it to 1 (even when it fails) and
  \<open>pgmoneta_workers_destroy\<close> on a pool sets it to 0; both leave it so when only worker
  threads and submitting threads run meanwhile. Every worker, of whatever pool, decides
  at both tests of its loop on this variable: after the destruction of a pool has begun,
  a worker of any pool that tests its loop leaves, and after an initialisation a worker
  of any pool that tests its loop goes on to wait.
\<close>

theorem keepalive_is_process_wide:
  "(\<forall>rc out s'. pgmoneta_workers_initialize num mw ms ma mk sched s = Inr (rc, out, s') \<and>
       list_all (list_all quiet) sched \<longrightarrow> worker_keepalive s' = 1) \<and>
   (\<forall>s'. pgmoneta_workers_destroy (Some p) sched s = Inr s' \<and>
       list_all (list_all quiet) sched \<longrightarrow> worker_keepalive s' = 0) \<and>
   (\<forall>r s'. workers_initialize_setup num mw ms ma mk s = Inr (r, s') \<longrightarrow> worker_keepalive s' = 1) \<and>
   (\<forall>n s'. workers_destroy_begin p s = Inr (n, s') \<longrightarrow> s' = s\<lparr>worker_keepalive := 0\<rparr>) \<and>
   (threads s a = Some wk \<and> pc wk = Testing \<longrightarrow>
      worker_do a s = Inr (set_thread a
        (wk\<lparr>pc := (if worker_keepalive s \<noteq> 0 then Waiting else Leaving)\<rparr>) s)) \<and>
   (threads s a = Some wk \<and> pc wk = Woken \<longrightarrow>
      worker_do a s = Inr (set_thread a
        (wk\<lparr>pc := (if worker_keepalive s \<noteq> 0 then Counting else Testing)\<rparr>) s)) \<and>
   (\<forall>n s'. workers_destroy_begin p s = Inr (n, s') \<and> threads s a = Some wk \<and> pc wk = Testing
      \<longrightarrow> worker_do a s' = Inr (set_thread a (wk\<lparr>pc := Leaving\<rparr>) s')) \<and>
   (\<forall>r s'. workers_initialize_setup num mw ms ma mk s = Inr (r, s') \<and>
      threads s' a = Some wk \<and> pc wk = Testing
      \<longrightarrow> worker_do a s' = Inr (set_thread a (wk\<lparr>pc := Waiting\<rparr>) s'))"
proof -
  have i: "\<forall>r s'. workers_initialize_setup num mw ms ma mk s = Inr (r, s') \<longrightarrow>
      worker_keepalive s' = 1"
    by (auto dest: setup_keepalive)
  have d: "\<forall>n s'. workers_destroy_begin p s = Inr (n, s') \<longrightarrow> s' = s\<lparr>worker_keepalive := 0\<rparr>"
    by (auto simp: workers_destroy_begin_def in_pool_def split: option.splits)
  have fi: "\<forall>rc out s'. pgmoneta_workers_initialize num mw ms ma mk sched s = Inr (rc, out, s') \<and>
       list_all (list_all quiet) sched \<longrightarrow> worker_keepalive s' = 1"
    using i
    by (auto simp: pgmoneta_workers_initialize_def
        split: sum.splits prod.splits option.splits dest: initialize_wait_keepalive)
  have fd: "\<forall>s'. pgmoneta_workers_destroy (Some p) sched s = Inr s' \<and>
       list_all (list_all quiet) sched \<longrightarrow> worker_keepalive s' = 0"
    using d
    by (auto simp: pgmoneta_workers_destroy_def
        split: sum.splits prod.splits dest!: destroy_wait_keepalive destroy_end_keepalive)
  have t: "threads s a = Some wk \<and> pc wk = Testing \<longrightarrow>
      worker_do a s = Inr (set_thread a
        (wk\<lparr>pc := (if worker_keepalive s \<noteq> 0 then Waiting else Leaving)\<rparr>) s)"
    by (simp add: worker_do_def)
  have w: "threads s a = Some wk \<and> pc wk = Woken \<longrightarrow>
      worker_do a s = Inr (set_thread a
        (wk\<lparr>pc := (if worker_keepalive s \<noteq> 0 then Counting else Testing)\<rparr>) s)"
    by (simp add: worker_do_def)
  have x: "\<forall>n s'. workers_destroy_begin p s = Inr (n, s') \<and> threads s a = Some wk \<and>
      pc wk = Testing \<longrightarrow> worker_do a s' = Inr (set_thread a (wk\<lparr>pc := Leaving\<rparr>) s')"
    using d by (auto simp: worker_do_def)
  have y: "\<forall>r s'. workers_initialize_setup num mw ms ma mk s = Inr (r, s') \<and>
      threads s' a = Some wk \<and> pc wk = Testing
      \<longrightarrow> worker_do a s' = Inr (set_thread a (wk\<lparr>pc := Waiting\<rparr>) s')"
    using i by (auto simp: worker_do_def)
  from fi fd i d t w x y show ?thesis by blast
qed

lemma two_pools_runs:
  "map_sum id (\<lambda>s. (worker_keepalive s, threads s 60, map_option number_of_alive (pools s 51),
      map_sum id (\<lambda>s'. (worker_keepalive s', map_option number_of_alive (pools s' 50),
                        pools s' 51, threads s' 60))
        (pgmoneta_workers_destroy (Some 51) [[Step 61, Step 61]] s)))
     (run two_pools boot) =
   Inr (1, Some \<lparr>workers = 50, pc = Testing, local_t = None\<rparr>, Some 1,
        Inr (0, Some 1, None, Some \<lparr>workers = 50, pc = Testing, local_t = None\<rparr>))"
  by (simp add: two_pools_def scenario_defs pgmoneta_workers_destroy_def workers_destroy_begin_def
      workers_destroy_post_def workers_destroy_end_def semaphore_post_all_def queue_destroy_def
      queue_clear_def semaphore_reset_def)

theorem keepalive_is_process_wide_witness:
  "(case run two_pools boot of
      Inl e \<Rightarrow> False
    | Inr s \<Rightarrow>
        worker_keepalive s = 1 \<and>
        threads s 60 = Some \<lparr>workers = 50, pc = Testing, local_t = None\<rparr> \<and>
        (case pgmoneta_workers_destroy (Some 51) [[Step 61, Step 61]] s of
           Inl e \<Rightarrow> False
         | Inr s' \<Rightarrow>
             worker_keepalive s' = 0 \<and> pools s' 51 = None \<and>
             map_option number_of_alive (pools s' 50) = Some 1 \<and>
             worker_do 60 s' =
               Inr (set_thread 60 \<lparr>workers = 50, pc = Leaving, local_t = None\<rparr> s')))"
proof -
  let ?wk = "\<lparr>workers = 50, pc = Testing, local_t = None\<rparr>"
  let ?sched = "[[Step 61, Step 61]]"
  from two_pools_runs obtain s where s: "run two_pools boot = Inr s"
    by (cases "run two_pools boot") auto
  with two_pools_runs obtain s' where s': "pgmoneta_workers_destroy (Some 51) ?sched s = Inr s'"
    by (cases "pgmoneta_workers_destroy (Some 51) ?sched s") auto
  from two_pools_runs s s' have o: "worker_keepalive s = 1" "threads s 60 = Some ?wk"
    "pools s' 51 = None" "map_option number_of_alive (pools s' 50) = Some 1"
    "threads s' 60 = Some ?wk"
    by auto
  have q: "list_all (list_all quiet) ?sched" by simp
  from keepalive_is_process_wide [where p = 51 and sched = ?sched and s = s, THEN conjunct2,
      THEN conjunct1] s' q
  have k: "worker_keepalive s' = 0" by blast
  from keepalive_is_process_wide [where s = s' and a = 60 and wk = ?wk] o k
  have "worker_do 60 s' = Inr (set_thread 60 (?wk\<lparr>pc := Leaving\<rparr>) s')" by simp
  with s s' o k show ?thesis by simp
qed

lemma queue_push_never_blocks: "queue_push q tp h \<noteq> Inl WouldBlock"
  by (auto simp: queue_push_def push_finish_def semaphore_post_def Let_def
      split: option.splits if_splits)

lemma workers_add_pushes:
  assumes "pools s p = Some w" and "task_heap s t = None"
    and "q_inv (queue w) (task_heap s) as" and "int (length as) < INT_MAX"
  shows "\<exists>s' w'. pgmoneta_workers_add (Some p) f c (Some (t, blk)) s = Inr (0, s') \<and>
           pools s' p = Some w' \<and> q_inv (queue w') (task_heap s') (as @ [t]) \<and>
           entry (task_heap s') t = (t, f, c)"
proof -
  let ?h = "(task_heap s)(t \<mapsto> blk\<lparr>task_function := f, wc := c\<rparr>)"
  from assms have nt: "t \<notin> set as"
    using chain_dom [of "task_heap s" "front (queue w)" as t] by (auto simp: q_inv_def)
  with assms have i: "q_inv (queue w) ?h as" by (simp add: q_inv_free)
  from q_inv_push_ok [OF i, of t] assms obtain q' h' where
    p: "queue_push (queue w) (Some t) ?h = Inr (q', h')" by auto
  from q_inv_push [OF i _ nt p] have i': "q_inv q' h' (as @ [t])"
    and e: "entry h' t = entry ?h t" by auto
  have "entry ?h t = (t, f, c)" by (simp add: entry_def)
  with assms p i' e show ?thesis
    by (simp add: pgmoneta_workers_add_def set_pool_def)
qed

text \<open>
  C6. \<open>pgmoneta_workers_add\<close> never waits. When it returns, it returns 1 exactly when
  the pool pointer is NULL or the allocation of the task failed, and then the process is
  unchanged: pool, queue and tasks are as before. When it returns 0, the function and
  the argument have been stored in the new task and the task has been pushed onto the
  pool's queue. On a pool whose queue is well formed and holds fewer than \<open>INT_MAX\<close>
  tasks it does return 0, and the task is the last of the queue.
\<close>

theorem workers_add_spec:
  "pgmoneta_workers_add wp f c m s \<noteq> Inl WouldBlock \<and>
   (\<forall>rc s'. pgmoneta_workers_add wp f c m s = Inr (rc, s') \<longrightarrow>
      (rc = 0 \<or> rc = 1) \<and>
      (rc = 1 \<longleftrightarrow> wp = None \<or> m = None) \<and>
      (rc = 1 \<longrightarrow> s' = s) \<and>
      (rc = 0 \<longrightarrow>
         (\<exists>p t blk w q' h'. wp = Some p \<and> m = Some (t, blk) \<and> pools s p = Some w \<and>
            queue_push (queue w) (Some t)
              ((task_heap s)(t \<mapsto> blk\<lparr>task_function := f, wc := c\<rparr>)) = Inr (q', h') \<and>
            s' = set_pool p (w\<lparr>queue := q'\<rparr>) (s\<lparr>task_heap := h'\<rparr>)))) \<and>
   (\<forall>p t blk w as. wp = Some p \<and> m = Some (t, blk) \<and> pools s p = Some w \<and>
      task_heap s t = None \<and> q_inv (queue w) (task_heap s) as \<and> int (length as) < INT_MAX \<longrightarrow>
      (\<exists>s' w'. pgmoneta_workers_add wp f c m s = Inr (0, s') \<and> pools s' p = Some w' \<and>
         q_inv (queue w') (task_heap s') (as @ [t]) \<and> entry (task_heap s') t = (t, f, c)))"
proof -
  have b: "pgmoneta_workers_add wp f c m s \<noteq> Inl WouldBlock"
    using queue_push_never_blocks
    by (auto simp: pgmoneta_workers_add_def split: option.splits sum.splits prod.splits)
  have r: "\<forall>rc s'. pgmoneta_workers_add wp f c m s = Inr (rc, s') \<longrightarrow>
      (rc = 0 \<or> rc = 1) \<and>
      (rc = 1 \<longleftrightarrow> wp = None \<or> m = None) \<and>
      (rc = 1 \<longrightarrow> s' = s) \<and>
      (rc = 0 \<longrightarrow>
         (\<exists>p t blk w q' h'. wp = Some p \<and> m = Some (t, blk) \<and> pools s p = Some w \<and>
            queue_push (queue w) (Some t)
              ((task_heap s)(t \<mapsto> blk\<lparr>task_function := f, wc := c\<rparr>)) = Inr (q', h') \<and>
            s' = set_pool p (w\<lparr>queue := q'\<rparr>) (s\<lparr>task_heap := h'\<rparr>)))"
    by (auto simp: pgmoneta_workers_add_def split: option.splits sum.splits prod.splits)
  have p: "\<forall>p t blk w as. wp = Some p \<and> m = Some (t, blk) \<and> pools s p = Some w \<and>
      task_heap s t = None \<and> q_inv (queue w) (task_heap s) as \<and> int (length as) < INT_MAX \<longrightarrow>
      (\<exists>s' w'. pgmoneta_workers_add wp f c m s = Inr (0, s') \<and> pools s' p = Some w' \<and>
         q_inv (queue w') (task_heap s') (as @ [t]) \<and> entry (task_heap s') t = (t, f, c))"
    using workers_add_pushes by blast
  from b r p show ?thesis by blast
qed

lemma one_worker_runs:
  "map_sum id (\<lambda>s. (pools s 50, task_heap s 1,
      map_sum id fst (pgmoneta_workers_add (Some 50) 10 (Some 100) (Some (1, task_block)) s),
      map_sum id fst (pgmoneta_workers_add (Some 50) 10 (Some 100) None s),
      map_sum id fst (pgmoneta_workers_add None 10 (Some 100) (Some (1, task_block)) s)))
     (run one_worker boot) =
   Inr (Some \<lparr>number_of_alive = 1, number_of_working = 0, outcome = True,
               queue = \<lparr>number_of_tasks = 0, front = None, rear = None,
                  has_tasks = Some \<lparr>sem_value = 0, cond_signals = 0, cond_broadcasts = 0\<rparr>\<rparr>,
               worker = [Some 60], idle_signals = 0\<rparr>, None, Inr 0, Inr 1, Inr 1)"
  by (simp add: scenario_defs)

theorem workers_add_spec_witness:
  "(case run one_worker boot of
      Inl e \<Rightarrow> False
    | Inr s \<Rightarrow>
        (case pgmoneta_workers_add (Some 50) 10 (Some 100) (Some (1, task_block)) s of
           Inl e \<Rightarrow> False
         | Inr (rc, s') \<Rightarrow>
             rc = 0 \<and> entry (task_heap s') 1 = (1, 10, Some 100) \<and>
             (case pools s' 50 of
                None \<Rightarrow> False
              | Some w' \<Rightarrow> q_inv (queue w') (task_heap s') [1])) \<and>
        pgmoneta_workers_add (Some 50) 10 (Some 100) None s = Inr (1, s) \<and>
        pgmoneta_workers_add None 10 (Some 100) (Some (1, task_block)) s = Inr (1, s))"
proof -
  let ?w = "\<lparr>number_of_alive = 1, number_of_working = 0, outcome = True,
               queue = \<lparr>number_of_tasks = 0, front = None, rear = None,
                  has_tasks = Some \<lparr>sem_value = 0, cond_signals = 0, cond_broadcasts = 0\<rparr>\<rparr>,
               worker = [Some 60], idle_signals = 0\<rparr>"
  from one_worker_runs obtain s where s: "run one_worker boot = Inr s"
    by (cases "run one_worker boot") auto
  with one_worker_runs have w: "pools s 50 = Some ?w" and f: "task_heap s 1 = None" by auto
  have i: "q_inv (queue ?w) (task_heap s) []" by (simp add: q_inv_def)
  have l: "int (length ([] :: addr list)) < INT_MAX" by (simp add: INT_MAX_def)
  have "\<exists>s' w'. pgmoneta_workers_add (Some 50) 10 (Some 100) (Some (1, task_block)) s
      = Inr (0, s') \<and> pools s' 50 = Some w' \<and> q_inv (queue w') (task_heap s') ([] @ [1]) \<and>
      entry (task_heap s') 1 = (1, 10, Some 100)"
    by (rule workers_add_spec [of "Some 50" 10 "Some 100" "Some (1, task_block)" s,
          THEN conjunct2, THEN conjunct2, rule_format, of 50 1 task_block ?w "[]"])
       (use w f i l in simp)
  then obtain s' w' where a: "pgmoneta_workers_add (Some 50) 10 (Some 100) (Some (1, task_block)) s
      = Inr (0, s')" "pools s' 50 = Some w'" "q_inv (queue w') (task_heap s') [1]"
      "entry (task_heap s') 1 = (1, 10, Some 100)"
    by auto
  have n1: "pgmoneta_workers_add (Some 50) 10 (Some 100) None s = Inr (1, s)"
    by (simp add: pgmoneta_workers_add_def)
  have n2: "pgmoneta_workers_add None 10 (Some 100) (Some (1, task_block)) s = Inr (1, s)"
    by (simp add: pgmoneta_workers_add_def)
  from s a n1 n2 show ?thesis by simp
qed

text \<open>
  C9. For every server of the configuration, \<open>pgmoneta_get_number_of_workers\<close> returns
  the server's own count when that is not -1 and the configuration's count otherwise,
  and in both cases at most the number of processors, or at most 16 where
  \<open>HAVE_LINUX\<close> is not defined.
\<close>

theorem number_of_workers_clamped:
  assumes "0 \<le> server" and "server < int (length (servers config))"
  shows "pgmoneta_get_number_of_workers have_linux nprocs config server =
         Inr (min (if server_workers (servers config ! nat server) \<noteq> - 1
                   then server_workers (servers config ! nat server)
                   else config_workers config)
                  (if have_linux then nprocs else 16))"
  using assms by (simp add: pgmoneta_get_number_of_workers_def MIN_macro_def Let_def min_def)

theorem number_of_workers_clamped_witness:
  "pgmoneta_get_number_of_workers True 4 little_config 0 = Inr 3 \<and>
   pgmoneta_get_number_of_workers True 4 little_config 1 = Inr 4 \<and>
   pgmoneta_get_number_of_workers False 4 little_config 1 = Inr 6 \<and>
   pgmoneta_get_number_of_workers False 4 little_config 2 = Inr 16"
  using number_of_workers_clamped [of 0 little_config True 4]
    number_of_workers_clamped [of 1 little_config True 4]
    number_of_workers_clamped [of 1 little_config False 4]
    number_of_workers_clamped [of 2 little_config False 4]
  by (simp add: little_config_def)

lemma create_worker_input_fails:
  "pgmoneta_create_worker_input cap d f t level wp m = Inr (rc, out) \<Longrightarrow>
   (rc = 1 \<longleftrightarrow> \<not> m) \<and> (rc = 1 \<longleftrightarrow> out = None)"
  by (auto simp: pgmoneta_create_worker_input_def split: if_splits sum.splits)

text \<open>
  C7. A directory text one byte longer than the field is neither cut to the field's
  capacity nor refused: \<open>memcpy\<close> is given its full length, and the copy runs past the
  end of the field.
\<close>

theorem create_worker_input_overrun:
  "pgmoneta_create_worker_input cap (Some (replicate (Suc cap) (CHR ''d''))) None None level wp True
   = Inl BufferOverrun"
  by (simp add: pgmoneta_create_worker_input_def copy_text_def)

end
